theory Spec2Isabelle
  imports Main "HOL-Library.Word"
begin

unbundle bit_operations_syntax

section \<open>Machine integers, byte order and DMA memory\<close>

type_synonym u8 = "8 word"
type_synonym u16 = "16 word"
type_synonym u32 = "32 word"
type_synonym u64 = "64 word"

text \<open>
  The Go runtime panics that the queue code can raise. A method either returns normally
  (\<open>Inr\<close>) or panics (\<open>Inl\<close>); the state a panicking call leaves behind is not modelled.
\<close>

datatype panic = IndexOutOfRange | SliceBounds | DivideByZero

definition then_do :: "'e + 'a \<Rightarrow> ('a \<Rightarrow> 'e + 'b) \<Rightarrow> 'e + 'b" where
  "then_do r f = (case r of Inl e \<Rightarrow> Inl e | Inr x \<Rightarrow> f x)"

text \<open>
  \<open>encoding/binary\<close>, little endian: the bytes that \<open>binary.Write\<close> and
  \<open>LittleEndian.PutUintNN\<close> produce for a value, and the value that
  \<open>LittleEndian.UintNN\<close> reads from the first bytes of a list.
\<close>

definition le_u16 :: "u16 \<Rightarrow> u8 list" where
  "le_u16 v = [ucast v, ucast (drop_bit 8 v)]"

definition le_u32 :: "u32 \<Rightarrow> u8 list" where
  "le_u32 v = [ucast v, ucast (drop_bit 8 v), ucast (drop_bit 16 v), ucast (drop_bit 24 v)]"

definition le_u64 :: "u64 \<Rightarrow> u8 list" where
  "le_u64 v = [ucast v, ucast (drop_bit 8 v), ucast (drop_bit 16 v), ucast (drop_bit 24 v),
     ucast (drop_bit 32 v), ucast (drop_bit 40 v), ucast (drop_bit 48 v), ucast (drop_bit 56 v)]"

definition Uint16 :: "u8 list \<Rightarrow> u16" where
  "Uint16 b = ucast (b ! 0) OR push_bit 8 (ucast (b ! 1))"

definition Uint32 :: "u8 list \<Rightarrow> u32" where
  "Uint32 b = ucast (b ! 0) OR push_bit 8 (ucast (b ! 1)) OR push_bit 16 (ucast (b ! 2))
     OR push_bit 24 (ucast (b ! 3))"

definition Uint64 :: "u8 list \<Rightarrow> u64" where
  "Uint64 b = ucast (b ! 0) OR push_bit 8 (ucast (b ! 1)) OR push_bit 16 (ucast (b ! 2))
     OR push_bit 24 (ucast (b ! 3)) OR push_bit 32 (ucast (b ! 4)) OR push_bit 40 (ucast (b ! 5))
     OR push_bit 48 (ucast (b ! 6)) OR push_bit 56 (ucast (b ! 7))"

text \<open>
  A Go byte slice over DMA memory: the physical address of its first byte, its length and
  its capacity. Two slices alias where their address ranges meet, so the bytes live in one
  memory, a function from physical address to byte. The nil slice has length 0.
\<close>

record slice =
  sl_ptr :: nat
  sl_len :: nat
  sl_cap :: nat

type_synonym memory = "nat \<Rightarrow> u8"

definition nil_slice :: slice where
  "nil_slice = \<lparr>sl_ptr = 0, sl_len = 0, sl_cap = 0\<rparr>"

text \<open>\<open>b[lo:hi]\<close> panics unless \<open>lo \<le> hi \<le> cap(b)\<close>; \<open>b[lo:]\<close> unless \<open>lo \<le> len(b)\<close>.\<close>

definition reslice :: "slice \<Rightarrow> nat \<Rightarrow> nat \<Rightarrow> panic + slice" where
  "reslice b lo hi =
     (if lo \<le> hi \<and> hi \<le> sl_cap b
      then Inr \<lparr>sl_ptr = sl_ptr b + lo, sl_len = hi - lo, sl_cap = sl_cap b - lo\<rparr>
      else Inl SliceBounds)"

definition slice_from :: "slice \<Rightarrow> nat \<Rightarrow> panic + slice" where
  "slice_from b lo =
     (if lo \<le> sl_len b
      then Inr \<lparr>sl_ptr = sl_ptr b + lo, sl_len = sl_len b - lo, sl_cap = sl_cap b - lo\<rparr>
      else Inl SliceBounds)"

definition read_bytes :: "memory \<Rightarrow> nat \<Rightarrow> nat \<Rightarrow> u8 list" where
  "read_bytes m a n = map m [a ..< a + n]"

definition write_bytes :: "nat \<Rightarrow> u8 list \<Rightarrow> memory \<Rightarrow> memory" where
  "write_bytes a bs m = (\<lambda>x. if a \<le> x \<and> x < a + length bs then bs ! (x - a) else m x)"

text \<open>\<open>copy(dst, src)\<close> copies \<open>min(len(dst), len(src))\<close> bytes.\<close>

definition copy_to :: "slice \<Rightarrow> u8 list \<Rightarrow> memory \<Rightarrow> memory" where
  "copy_to dst src m = write_bytes (sl_ptr dst) (take (sl_len dst) src) m"

text \<open>
  \<open>LittleEndian.PutUint16(b, v)\<close>, \<open>PutUint32\<close>, \<open>Uint16\<close> on a slice: an index panic
  when the slice is shorter than the value.
\<close>

definition PutUint16 :: "slice \<Rightarrow> u16 \<Rightarrow> memory \<Rightarrow> panic + memory" where
  "PutUint16 b v m =
     (if sl_len b < 2 then Inl IndexOutOfRange else Inr (write_bytes (sl_ptr b) (le_u16 v) m))"

definition PutUint32 :: "slice \<Rightarrow> u32 \<Rightarrow> memory \<Rightarrow> panic + memory" where
  "PutUint32 b v m =
     (if sl_len b < 4 then Inl IndexOutOfRange else Inr (write_bytes (sl_ptr b) (le_u32 v) m))"

definition GetUint16 :: "slice \<Rightarrow> memory \<Rightarrow> panic + u16" where
  "GetUint16 b m =
     (if sl_len b < 2 then Inl IndexOutOfRange else Inr (Uint16 (read_bytes m (sl_ptr b) 2)))"

section \<open>Descriptor\<close>

record Descriptor =
  d_Address :: u64
  d_length :: u32
  d_Flags :: u16
  d_Next :: u16
  d_buf :: slice

text \<open>The zero value \<open>&Descriptor{}\<close>.\<close>

definition Descriptor_zero :: Descriptor where
  "Descriptor_zero =
     \<lparr>d_Address = 0, d_length = 0, d_Flags = 0, d_Next = 0, d_buf = nil_slice\<rparr>"

text \<open>\<open>Descriptor.Bytes\<close>: four \<open>binary.Write\<close> calls into one buffer.\<close>

definition Descriptor_Bytes :: "Descriptor \<Rightarrow> u8 list" where
  "Descriptor_Bytes d =
     le_u64 (d_Address d) @ le_u32 (d_length d) @ le_u16 (d_Flags d) @ le_u16 (d_Next d)"

text \<open>
  Modelled from the spec: a decoder of the descriptor wire form is not part of the
  repository. This reference decoder follows section 6 of the specification: 16 bytes,
  address (u64 LE), length (u32 LE), flags (u16 LE), next (u16 LE). The DMA buffer of a
  descriptor is not on the wire; the decoded descriptor has the nil buffer.
\<close>

definition decode_descriptor_ref :: "u8 list \<Rightarrow> Descriptor option" where
  "decode_descriptor_ref bs =
     (if length bs = 16
      then Some \<lparr>d_Address = Uint64 (take 8 bs),
                 d_length = Uint32 (take 4 (drop 8 bs)),
                 d_Flags = Uint16 (take 2 (drop 12 bs)),
                 d_Next = Uint16 (take 2 (drop 14 bs)),
                 d_buf = nil_slice\<rparr>
      else None)"

section \<open>DMA allocator\<close>

text \<open>
  Modelled from the spec: package \<open>dma\<close> is not among the sources. Section 6 of the
  specification gives its contract: \<open>reserve(size, alignment)\<close> returns a physical
  address and a byte view of \<open>size\<close> bytes, \<open>boundBuffer(byteView)\<close> tells whether a
  view was obtained through the allocator and gives its physical address. The model keeps
  the blocks handed out so far; a view is bound when it lies within one of them. A new
  block is placed at the first suitably aligned address past the blocks handed out before.
\<close>

record dma =
  blocks :: "(nat \<times> nat) list"
  brk :: nat

definition align_up :: "nat \<Rightarrow> nat \<Rightarrow> nat" where
  "align_up a n = (if n = 0 then a else ((a + n - 1) div n) * n)"

definition Reserve :: "nat \<Rightarrow> nat \<Rightarrow> dma \<Rightarrow> (nat \<times> slice) \<times> dma" where
  "Reserve sz align a =
     (let addr = align_up (brk a) align
      in ((addr, \<lparr>sl_ptr = addr, sl_len = sz, sl_cap = sz\<rparr>),
          a\<lparr>blocks := (addr, sz) # blocks a, brk := addr + sz\<rparr>))"

definition Reserved :: "dma \<Rightarrow> slice \<Rightarrow> bool \<times> nat" where
  "Reserved a buf =
     (list_ex (\<lambda>(b, n). b \<le> sl_ptr buf \<and> sl_ptr buf + sl_len buf \<le> b + n) (blocks a),
      sl_ptr buf)"

section \<open>Descriptor operations\<close>

text \<open>
  \<open>Descriptor.Init\<close> has no result and no panicking statement: both of its branches
  return normally, the first one (buffer not reserved) without touching the descriptor.
\<close>

definition Descriptor_Init :: "dma \<Rightarrow> slice \<Rightarrow> u16 \<Rightarrow> Descriptor \<Rightarrow> panic + Descriptor" where
  "Descriptor_Init a buf flags d =
     (let (res, addr) = Reserved a buf
      in if \<not> res then Inr d
         else Inr (d\<lparr>d_Address := of_nat addr, d_length := of_nat (sl_len buf),
                     d_Flags := flags, d_buf := buf\<rparr>))"

text \<open>\<open>Descriptor.Read(b)\<close>: the contents of \<open>b\<close> after \<open>copy(b, d.buf)\<close>.\<close>

definition Descriptor_Read :: "Descriptor \<Rightarrow> u8 list \<Rightarrow> memory \<Rightarrow> u8 list" where
  "Descriptor_Read d b m =
     read_bytes m (sl_ptr (d_buf d)) (min (length b) (sl_len (d_buf d)))
       @ drop (sl_len (d_buf d)) b"

definition Descriptor_Write :: "Descriptor \<Rightarrow> u8 list \<Rightarrow> memory \<Rightarrow> Descriptor \<times> memory" where
  "Descriptor_Write d b m = (d\<lparr>d_length := of_nat (length b)\<rparr>, copy_to (d_buf d) b m)"

section \<open>Available ring\<close>

record Available =
  a_Flags :: u16
  a_index :: u16
  a_ring :: "u16 list"
  a_EventIndex :: u16
  a_buf :: slice

definition Available_Bytes :: "Available \<Rightarrow> u8 list" where
  "Available_Bytes d =
     le_u16 (a_Flags d) @ le_u16 (a_index d) @ concat (map le_u16 (a_ring d))
       @ le_u16 (a_EventIndex d)"

definition Available_SetIndex :: "u16 \<Rightarrow> Available \<Rightarrow> memory \<Rightarrow> panic + (Available \<times> memory)" where
  "Available_SetIndex index d m =
     then_do (slice_from (a_buf d) 2) (\<lambda>s.
     then_do (PutUint16 s index m) (\<lambda>m'.
       Inr (d\<lparr>a_index := index\<rparr>, m')))"

text \<open>
  In \<open>Ring\<close> and \<open>SetRingIndex\<close> the offset \<open>4 + n*2\<close> is computed in \<open>uint16\<close>, as \<open>n\<close>
  is, and wraps at 65536.
\<close>

definition Available_Ring :: "u16 \<Rightarrow> Available \<Rightarrow> memory \<Rightarrow> panic + (Available \<times> u16)" where
  "Available_Ring n d m =
     (let off = 4 + n * 2
      in then_do (slice_from (a_buf d) (unat off)) (\<lambda>s.
         then_do (GetUint16 s m) (\<lambda>v.
           if unat n < length (a_ring d)
           then Inr (d\<lparr>a_ring := (a_ring d)[unat n := v]\<rparr>, v)
           else Inl IndexOutOfRange)))"

definition Available_SetRingIndex ::
  "u16 \<Rightarrow> u16 \<Rightarrow> Available \<Rightarrow> memory \<Rightarrow> panic + (Available \<times> memory)" where
  "Available_SetRingIndex n index d m =
     (let off = 4 + n * 2
      in then_do (slice_from (a_buf d) (unat off)) (\<lambda>s.
         then_do (PutUint16 s index m) (\<lambda>m'.
           if unat n < length (a_ring d)
           then Inr (d\<lparr>a_ring := (a_ring d)[unat n := index]\<rparr>, m')
           else Inl IndexOutOfRange)))"

section \<open>Used ring\<close>

record Ring =
  r_Index :: u32
  r_Length :: u32

definition Ring_zero :: Ring where
  "Ring_zero = \<lparr>r_Index = 0, r_Length = 0\<rparr>"

definition Ring_Bytes :: "Ring \<Rightarrow> u8 list" where
  "Ring_Bytes d = le_u32 (r_Index d) @ le_u32 (r_Length d)"

record Used =
  u_Flags :: u16
  u_index :: u16
  u_ring :: "Ring list"
  u_AvailEvent :: u16
  u_buf :: slice
  u_last :: u16

definition Used_Bytes :: "Used \<Rightarrow> u8 list" where
  "Used_Bytes d =
     le_u16 (u_Flags d) @ le_u16 (u_index d) @ concat (map Ring_Bytes (u_ring d))
       @ le_u16 (u_AvailEvent d)"

definition Used_Index :: "Used \<Rightarrow> memory \<Rightarrow> panic + (Used \<times> u16)" where
  "Used_Index d m =
     then_do (slice_from (u_buf d) 2) (\<lambda>s.
     then_do (GetUint16 s m) (\<lambda>v.
       Inr (d\<lparr>u_index := v\<rparr>, v)))"

text \<open>
  \<open>Used.Ring(n)\<close>: the offset \<open>4 + n*8\<close> is a \<open>uint16\<close>. \<open>binary.Decode\<close> fills the
  cached entry from the first 8 bytes of the slice; on a shorter slice it returns an error,
  which the code drops, and the cached entry stays as it was. Either way the cached entry
  is the result.
\<close>

definition Used_Ring :: "u16 \<Rightarrow> Used \<Rightarrow> memory \<Rightarrow> panic + (Used \<times> Ring)" where
  "Used_Ring n d m =
     (let off = 4 + n * 8
      in then_do (slice_from (u_buf d) (unat off)) (\<lambda>s.
           if unat n < length (u_ring d)
           then (if sl_len s < 8 then Inr (d, u_ring d ! unat n)
                 else (let r = \<lparr>r_Index = Uint32 (read_bytes m (sl_ptr s) 4),
                                  r_Length = Uint32 (read_bytes m (sl_ptr s + 4) 4)\<rparr>
                       in Inr (d\<lparr>u_ring := (u_ring d)[unat n := r]\<rparr>, r)))
           else Inl IndexOutOfRange))"

section \<open>Virtual queue\<close>

text \<open>Descriptor flags.\<close>

definition Next :: u16 where "Next = 1"
definition Write :: u16 where "Write = 2"
definition Indirect :: u16 where "Indirect = 3"

text \<open>
  The mutex of the queue is left out: the model is of one call at a time. Physical
  addresses and sizes (\<open>uint\<close>, \<open>int\<close>) are natural numbers; the model covers calls whose
  sizes are not negative and whose address arithmetic stays below \<open>2^63\<close>.
\<close>

record VirtualQueue =
  q_Descriptors :: "Descriptor list"
  q_Available :: Available
  q_Used :: Used
  q_buf :: slice
  q_desc :: nat
  q_driver :: nat
  q_device :: nat
  q_size :: u16

text \<open>The zero value \<open>&VirtualQueue{}\<close>, on which \<open>Init\<close> is called.\<close>

definition VirtualQueue_zero :: VirtualQueue where
  "VirtualQueue_zero =
     \<lparr>q_Descriptors = [],
      q_Available = \<lparr>a_Flags = 0, a_index = 0, a_ring = [], a_EventIndex = 0, a_buf = nil_slice\<rparr>,
      q_Used = \<lparr>u_Flags = 0, u_index = 0, u_ring = [], u_AvailEvent = 0, u_buf = nil_slice,
                u_last = 0\<rparr>,
      q_buf = nil_slice, q_desc = 0, q_driver = 0, q_device = 0, q_size = 0\<rparr>"

text \<open>\<open>VirtualQueue.Bytes\<close>: the image and the offsets of the driver and device areas.\<close>

definition VirtualQueue_Bytes :: "VirtualQueue \<Rightarrow> u8 list \<times> nat \<times> nat" where
  "VirtualQueue_Bytes d =
     (let b1 = concat (map Descriptor_Bytes (q_Descriptors d));
          driver = length b1;
          b2 = b1 @ Available_Bytes (q_Available d);
          r = length b2 mod 4;
          b3 = (if r \<noteq> 0 then b2 @ replicate (4 - r) 0 else b2);
          device = length b3
      in (b3 @ Used_Bytes (q_Used d), driver, device))"

text \<open>One round of the loop of \<open>Init\<close>, and the loop over \<open>i = 0, ..., size - 1\<close>.\<close>

definition Init_step ::
  "dma \<Rightarrow> slice \<Rightarrow> nat \<Rightarrow> nat \<Rightarrow> u16 \<Rightarrow> nat \<Rightarrow> VirtualQueue \<Rightarrow> panic + VirtualQueue" where
  "Init_step a buf sz len flags i d =
     (let off = sz * i
      in then_do (reslice buf off (off + len)) (\<lambda>b.
         then_do (Descriptor_Init a b flags Descriptor_zero) (\<lambda>desc.
           Inr (d\<lparr>q_Descriptors := q_Descriptors d @ [desc],
                  q_Available := (q_Available d)\<lparr>a_ring := a_ring (q_Available d) @ [of_nat i]\<rparr>,
                  q_Used := (q_Used d)\<lparr>u_ring := u_ring (q_Used d) @ [Ring_zero]\<rparr>\<rparr>))))"

fun Init_loop ::
  "dma \<Rightarrow> slice \<Rightarrow> nat \<Rightarrow> nat \<Rightarrow> u16 \<Rightarrow> nat list \<Rightarrow> VirtualQueue \<Rightarrow> panic + VirtualQueue" where
  "Init_loop a buf sz len flags [] d = Inr d"
| "Init_loop a buf sz len flags (i # is) d =
     then_do (Init_step a buf sz len flags i d) (Init_loop a buf sz len flags is)"

definition VirtualQueue_Init ::
  "nat \<Rightarrow> nat \<Rightarrow> u16 \<Rightarrow> VirtualQueue \<Rightarrow> dma \<Rightarrow> memory \<Rightarrow> panic + (VirtualQueue \<times> dma \<times> memory)" where
  "VirtualQueue_Init sz len flags d a m =
     (let ((_, buf), a1) = Reserve (sz * len) 0 a
      in then_do (Init_loop a1 buf sz len flags [0..<sz] d) (\<lambda>d1.
           let d2 = (if flags = Write
                     then d1\<lparr>q_Available := (q_Available d1)\<lparr>a_index := of_nat sz\<rparr>\<rparr>
                     else d1);
               (bytes, driver, device) = VirtualQueue_Bytes d2;
               ((desc, qbuf), a2) = Reserve (length bytes) 16 a1;
               m' = copy_to qbuf bytes m
           in then_do (reslice qbuf driver device) (\<lambda>ab.
              then_do (slice_from qbuf device) (\<lambda>ub.
                Inr (d2\<lparr>q_buf := qbuf, q_desc := desc, q_driver := desc + driver,
                        q_device := desc + device, q_size := of_nat sz,
                        q_Available := (q_Available d2)\<lparr>a_buf := ab\<rparr>,
                        q_Used := (q_Used d2)\<lparr>u_buf := ub\<rparr>\<rparr>, a2, m')))))"

text \<open>\<open>VirtualQueue.Pop\<close>: \<open>None\<close> is the nil result of the empty queue.\<close>

definition VirtualQueue_Pop ::
  "VirtualQueue \<Rightarrow> memory \<Rightarrow> panic + (u8 list option \<times> VirtualQueue \<times> memory)" where
  "VirtualQueue_Pop d m =
     then_do (Used_Index (q_Used d) m) (\<lambda>(u1, uidx).
       if uidx = u_last u1 then Inr (None, d\<lparr>q_Used := u1\<rparr>, m)
       else if q_size d = 0 then Inl DivideByZero
       else then_do (Used_Ring (u_last u1 mod q_size d) u1 m) (\<lambda>(u2, avail).
         let buf = replicate (unat (r_Length avail)) 0
         in if unat (r_Index avail) < length (q_Descriptors d)
            then (let buf' = Descriptor_Read (q_Descriptors d ! unat (r_Index avail)) buf m;
                      av1 = (q_Available d)\<lparr>a_index := a_index (q_Available d) + 1\<rparr>
                  in then_do (Available_SetRingIndex (a_index av1 mod q_size d)
                                (ucast (r_Index avail)) av1 m) (\<lambda>(av2, m1).
                     then_do (Available_SetIndex (a_index av2) av2 m1) (\<lambda>(av3, m2).
                       Inr (Some buf',
                            d\<lparr>q_Available := av3, q_Used := u2\<lparr>u_last := u_last u2 + 1\<rparr>\<rparr>,
                            m2))))
            else Inl IndexOutOfRange))"

text \<open>
  The recycling loop of \<open>Push\<close>, \<open>for i := used; i > 0; i--\<close>: the first argument is
  \<open>i\<close>, and round \<open>i = j + 1\<close> reads the Used entry at position \<open>i - 1 = j\<close>.
\<close>

fun Push_loop ::
  "nat \<Rightarrow> u16 \<Rightarrow> Available \<Rightarrow> Used \<Rightarrow> memory \<Rightarrow> panic + (Available \<times> Used \<times> memory)" where
  "Push_loop 0 sz av u m = Inr (av, u, m)"
| "Push_loop (Suc j) sz av u m =
     (if sz = 0 then Inl DivideByZero
      else then_do (Used_Ring (of_nat j) u m) (\<lambda>(u', avail).
           then_do (Available_SetRingIndex (a_index av mod sz) (ucast (r_Index avail)) av m)
             (\<lambda>(av', m'). Push_loop j sz av' u' m')))"

definition VirtualQueue_Push ::
  "u8 list \<Rightarrow> VirtualQueue \<Rightarrow> memory \<Rightarrow> panic + (VirtualQueue \<times> memory)" where
  "VirtualQueue_Push buf d m =
     (if q_size d = 0 then Inl DivideByZero
      else then_do (Available_Ring (a_index (q_Available d) mod q_size d) (q_Available d) m)
             (\<lambda>(av1, index).
           then_do (Used_Index (q_Used d) m) (\<lambda>(u1, uidx).
             let used = uidx - u_last u1;
                 off = 8 + index * 16
             in then_do (slice_from (q_buf d) (unat off)) (\<lambda>s.
                then_do (PutUint32 s (of_nat (length buf)) m) (\<lambda>m1.
                  if unat index < length (q_Descriptors d)
                  then (let (desc', m2) = Descriptor_Write (q_Descriptors d ! unat index) buf m1;
                            ds = (q_Descriptors d)[unat index := desc']
                        in then_do (Available_SetIndex (a_index av1 + 1) av1 m2) (\<lambda>(av2, m3).
                           then_do (Push_loop (unat used) (q_size d) av2 u1 m3) (\<lambda>(av3, u2, m4).
                             Inr (d\<lparr>q_Descriptors := ds, q_Available := av3,
                                    q_Used := u2\<lparr>u_last := u_last u2 + used\<rparr>\<rparr>, m4))))
                  else Inl IndexOutOfRange)))))"

text \<open>
  What the device reads: the Available index and the Available ring slot \<open>n\<close> in the DMA
  image of the queue, at offsets 2 and \<open>4 + 2 n\<close> of the driver area, and the Used index
  and Used entry \<open>n\<close> at offsets 2 and \<open>4 + 8 n\<close> of the device area.
\<close>

definition avail_index_image :: "VirtualQueue \<Rightarrow> memory \<Rightarrow> u16" where
  "avail_index_image d m = Uint16 (read_bytes m (q_driver d + 2) 2)"

definition avail_slot_image :: "VirtualQueue \<Rightarrow> memory \<Rightarrow> nat \<Rightarrow> u16" where
  "avail_slot_image d m n = Uint16 (read_bytes m (q_driver d + 4 + 2 * n) 2)"

definition used_index_image :: "VirtualQueue \<Rightarrow> memory \<Rightarrow> u16" where
  "used_index_image d m = Uint16 (read_bytes m (q_device d + 2) 2)"

definition used_entry_image :: "VirtualQueue \<Rightarrow> memory \<Rightarrow> nat \<Rightarrow> Ring" where
  "used_entry_image d m n =
     \<lparr>r_Index = Uint32 (read_bytes m (q_device d + 4 + 8 * n) 4),
      r_Length = Uint32 (read_bytes m (q_device d + 8 + 8 * n) 4)\<rparr>"

section \<open>MSI-X capability\<close>

text \<open>
  Modelled from the spec: \<open>pci.Device\<close>, \<open>CapabilityHeader\<close> and \<open>dma.NewRegion\<close> are not
  among the sources. A device is its base address registers; \<open>NewRegion\<close> is a parameter
  telling whether a region of the given address and size can be set up, and the entry it
  reserves starts at the address of the region. The writes of \<open>EnableInterrupt\<close> to the
  MSI-X table and to the configuration space are collected in the order they are made.
\<close>

record Device =
  BaseAddress :: "nat \<Rightarrow> u64"

record CapabilityMSIX =
  c_Vendor :: u8
  c_Next :: u8
  MessageControl :: u16
  TableOffset :: u32
  PBAOffset :: u32
  c_device :: "Device option"
  c_off :: u32

datatype msix_error = InvalidCapability | RegionError

datatype msix_write = TableWrite nat "u8 list" | ConfigWrite nat u32 u32

definition msixEnable :: nat where "msixEnable = 31"

definition TableSize :: "CapabilityMSIX \<Rightarrow> int" where
  "TableSize msix = uint (MessageControl msix AND 0x7ff) + 1"

definition EnableInterrupt ::
  "(nat \<Rightarrow> nat \<Rightarrow> bool) \<Rightarrow> int \<Rightarrow> u64 \<Rightarrow> u32 \<Rightarrow> CapabilityMSIX
     \<Rightarrow> msix_error option \<times> msix_write list" where
  "EnableInterrupt NewRegion n addr data msix =
     (if n > TableSize msix \<or> c_device msix = None then (Some InvalidCapability, [])
      else case c_device msix of
        None \<Rightarrow> (Some InvalidCapability, [])
      | Some dev \<Rightarrow>
          (let bir = unat (TableOffset msix AND 3);
               bar = BaseAddress dev bir;
               table = bar + (ucast (TableOffset msix) AND 0xfffffffc);
               sz = 16;
               off = (of_int (sz * n) :: u64);
               entry = unat (table + off)
           in if \<not> NewRegion entry (nat sz) then (Some RegionError, [])
              else (None,
                    [TableWrite entry (le_u64 addr),
                     TableWrite (entry + 8) (le_u32 data),
                     TableWrite (entry + 12) (le_u32 0),
                     ConfigWrite 0 (c_off msix) (push_bit msixEnable 1)])))"

section \<open>Auxiliary definitions\<close>

text \<open>
  The descriptor that round \<open>i\<close> of the loop of \<open>Init\<close> appends, the padding that
  \<open>VirtualQueue.Bytes\<close> inserts after an Available ring ending at offset \<open>e\<close>, and an
  allocator and a memory to run the code on: nothing reserved yet, free memory from address
  4096 on, all bytes zero.
\<close>

definition Init_desc :: "dma \<Rightarrow> slice \<Rightarrow> nat \<Rightarrow> nat \<Rightarrow> u16 \<Rightarrow> nat \<Rightarrow> Descriptor" where
  "Init_desc a buf sz len flags i =
     (let b = \<lparr>sl_ptr = sl_ptr buf + sz * i, sl_len = len, sl_cap = sl_cap buf - sz * i\<rparr>
      in if fst (Reserved a b)
         then \<lparr>d_Address = of_nat (sl_ptr buf + sz * i), d_length = of_nat len, d_Flags = flags,
               d_Next = 0, d_buf = b\<rparr>
         else Descriptor_zero)"

definition pad4 :: "nat \<Rightarrow> nat" where
  "pad4 e = (if e mod 4 \<noteq> 0 then 4 - e mod 4 else 0)"

text \<open>
  The layout that \<open>Init\<close> gives a queue of capacity \<open>N = size\<close>: \<open>N\<close> descriptors and
  ring entries, the descriptor table at the start of the DMA block, the driver area right
  after it, the device area after the Available ring and inside the block, and every
  descriptor buffer outside the block.
\<close>

definition queue_layout :: "VirtualQueue \<Rightarrow> bool" where
  "queue_layout q \<longleftrightarrow>
     length (q_Descriptors q) = unat (q_size q)
     \<and> length (a_ring (q_Available q)) = unat (q_size q)
     \<and> sl_ptr (q_buf q) = q_desc q
     \<and> q_driver q = q_desc q + 16 * unat (q_size q)
     \<and> sl_ptr (a_buf (q_Available q)) = q_driver q
     \<and> sl_ptr (u_buf (q_Used q)) = q_device q
     \<and> q_driver q + 2 * unat (q_size q) + 6 \<le> q_device q
     \<and> q_device q \<le> q_desc q + sl_len (q_buf q)
     \<and> list_all (\<lambda>d. sl_ptr (d_buf d) + sl_len (d_buf d) \<le> q_desc q
                      \<or> q_desc q + sl_len (q_buf q) \<le> sl_ptr (d_buf d)) (q_Descriptors q)"

text \<open>
  Modelled from the spec: the device is an external peer. Completing a buffer, it writes
  the Used entry at ring position \<open>pos\<close> (descriptor index and length) and then the Used
  index, here \<open>pos + 1\<close>.
\<close>

definition device_uses :: "VirtualQueue \<Rightarrow> nat \<Rightarrow> u32 \<Rightarrow> u32 \<Rightarrow> memory \<Rightarrow> memory" where
  "device_uses q pos ident len m =
     write_bytes (q_device q + 2) (le_u16 (of_nat pos + 1))
       (write_bytes (q_device q + 4 + 8 * pos) (le_u32 ident @ le_u32 len) m)"

text \<open>
  An MSI-X capability with a table of 4 entries (\<open>MessageControl = 3\<close>) at offset
  \<open>0x2000\<close> of BAR 0, bound to a device whose BARs read \<open>0xfebd0000\<close>.
\<close>

definition msix4 :: CapabilityMSIX where
  "msix4 = \<lparr>c_Vendor = 0x11, c_Next = 0, MessageControl = 3, TableOffset = 0x2000,
             PBAOffset = 0x3000, c_device = Some \<lparr>BaseAddress = (\<lambda>_. 0xfebd0000)\<rparr>,
             c_off = 0x98\<rparr>"

definition dma0 :: dma where
  "dma0 = \<lparr>blocks = [], brk = 4096\<rparr>"

definition mem0 :: memory where
  "mem0 = (\<lambda>_. 0)"

section \<open>Byte order lemmas\<close>

lemma then_do_Inr [simp]: "then_do (Inr x) f = f x"
  by (simp add: then_do_def)

lemma then_do_Inl [simp]: "then_do (Inl e) f = Inl e"
  by (simp add: then_do_def)

lemma then_do_eq_Inr: "then_do r f = Inr y \<longleftrightarrow> (\<exists>x. r = Inr x \<and> f x = Inr y)"
  by (cases r) simp_all

lemma bit_byte_piece:
  "bit (push_bit k (ucast (ucast (drop_bit k (v::'a::len word)) :: u8) :: 'a word)) n
     \<longleftrightarrow> k \<le> n \<and> n < k + 8 \<and> bit v n"
  by (auto simp: bit_simps dest: bit_imp_le_length)

lemma bit_byte_piece0:
  "bit (ucast (ucast (v::'a::len word) :: u8) :: 'a word) n \<longleftrightarrow> n < 8 \<and> bit v n"
  by (auto simp: bit_simps dest: bit_imp_le_length)

lemma Uint16_le_u16 [simp]: "Uint16 (le_u16 v) = v"
proof (rule bit_word_eqI)
  fix n assume "n < LENGTH(16)"
  then show "bit (Uint16 (le_u16 v)) n = bit v n"
    unfolding Uint16_def le_u16_def
    by (simp add: bit_or_iff bit_byte_piece bit_byte_piece0) linarith
qed

lemma Uint32_le_u32 [simp]: "Uint32 (le_u32 v) = v"
proof (rule bit_word_eqI)
  fix n assume "n < LENGTH(32)"
  then show "bit (Uint32 (le_u32 v)) n = bit v n"
    unfolding Uint32_def le_u32_def
    by (simp add: bit_or_iff bit_byte_piece bit_byte_piece0) linarith
qed

lemma Uint64_le_u64 [simp]: "Uint64 (le_u64 v) = v"
proof (rule bit_word_eqI)
  fix n assume "n < LENGTH(64)"
  then show "bit (Uint64 (le_u64 v)) n = bit v n"
    unfolding Uint64_def le_u64_def
    by (simp add: bit_or_iff bit_byte_piece bit_byte_piece0) linarith
qed

lemma length_le_u16 [simp]: "length (le_u16 v) = 2"
  by (simp add: le_u16_def)

lemma length_le_u32 [simp]: "length (le_u32 v) = 4"
  by (simp add: le_u32_def)

lemma length_le_u64 [simp]: "length (le_u64 v) = 8"
  by (simp add: le_u64_def)

lemma length_Descriptor_Bytes [simp]: "length (Descriptor_Bytes d) = 16"
  by (simp add: Descriptor_Bytes_def)

lemma le_u16_bytes: "le_u16 v = map (\<lambda>i. ucast (drop_bit (8 * i) v)) [0..<2]"
  by (simp add: le_u16_def upt_rec)

lemma le_u32_bytes: "le_u32 v = map (\<lambda>i. ucast (drop_bit (8 * i) v)) [0..<4]"
  by (simp add: le_u32_def upt_rec)

lemma le_u64_bytes: "le_u64 v = map (\<lambda>i. ucast (drop_bit (8 * i) v)) [0..<8]"
  by (simp add: le_u64_def upt_rec)

section \<open>Lemmas on the queue image and on Init\<close>

lemma Init_step_eq:
  "Init_step a buf sz len flags i d =
     (if sz * i + len \<le> sl_cap buf
      then Inr (d\<lparr>q_Descriptors := q_Descriptors d @ [Init_desc a buf sz len flags i],
                  q_Available := (q_Available d)\<lparr>a_ring := a_ring (q_Available d) @ [of_nat i]\<rparr>,
                  q_Used := (q_Used d)\<lparr>u_ring := u_ring (q_Used d) @ [Ring_zero]\<rparr>\<rparr>)
      else Inl SliceBounds)"
  by (simp add: Init_step_def reslice_def Descriptor_Init_def Init_desc_def Reserved_def Descriptor_zero_def
      Let_def split: prod.splits)

lemma Init_loop_eq:
  "Init_loop a buf sz len flags is d =
     (if list_all (\<lambda>i. sz * i + len \<le> sl_cap buf) is
      then Inr (d\<lparr>q_Descriptors := q_Descriptors d @ map (Init_desc a buf sz len flags) is,
                  q_Available := (q_Available d)\<lparr>a_ring := a_ring (q_Available d) @ map of_nat is\<rparr>,
                  q_Used := (q_Used d)\<lparr>u_ring := u_ring (q_Used d) @ replicate (length is) Ring_zero\<rparr>\<rparr>)
      else Inl SliceBounds)"
proof (induction "is" arbitrary: d)
  case Nil
  show ?case by simp
next
  case (Cons i "is")
  show ?case
    by (simp add: Init_step_eq Cons.IH replicate_append_same)
qed

lemma Init_desc_bound:
  assumes "sz * i + len \<le> sl_cap buf" "(sl_ptr buf, sl_cap buf) \<in> set (blocks a)"
  shows "Init_desc a buf sz len flags i =
     \<lparr>d_Address = of_nat (sl_ptr buf + sz * i), d_length = of_nat len, d_Flags = flags,
      d_Next = 0,
      d_buf = \<lparr>sl_ptr = sl_ptr buf + sz * i, sl_len = len, sl_cap = sl_cap buf - sz * i\<rparr>\<rparr>"
proof -
  have "fst (Reserved a \<lparr>sl_ptr = sl_ptr buf + sz * i, sl_len = len, sl_cap = sl_cap buf - sz * i\<rparr>)"
    using assms by (auto simp: Reserved_def list_ex_iff intro!: bexI [of _ "(sl_ptr buf, sl_cap buf)"])
  then show ?thesis by (simp add: Init_desc_def)
qed

lemma length_concat_Descriptor_Bytes [simp]:
  "length (concat (map Descriptor_Bytes ds)) = 16 * length ds"
  by (induction ds) simp_all

lemma length_concat_le_u16 [simp]: "length (concat (map le_u16 xs)) = 2 * length xs"
  by (induction xs) simp_all

lemma length_Available_Bytes [simp]: "length (Available_Bytes d) = 2 * length (a_ring d) + 6"
  by (simp add: Available_Bytes_def)

lemma length_Ring_Bytes [simp]: "length (Ring_Bytes r) = 8"
  by (simp add: Ring_Bytes_def)

lemma length_concat_Ring_Bytes [simp]: "length (concat (map Ring_Bytes rs)) = 8 * length rs"
  by (induction rs) simp_all

lemma length_Used_Bytes [simp]: "length (Used_Bytes d) = 8 * length (u_ring d) + 6"
  by (simp add: Used_Bytes_def)

lemma pad4_aligned: "(e + pad4 e) mod 4 = 0"
  unfolding pad4_def by presburger

lemma VirtualQueue_Bytes_eq:
  "VirtualQueue_Bytes d =
     (let e = 16 * length (q_Descriptors d) + 2 * length (a_ring (q_Available d)) + 6
      in (concat (map Descriptor_Bytes (q_Descriptors d)) @ Available_Bytes (q_Available d)
            @ replicate (pad4 e) 0 @ Used_Bytes (q_Used d),
          16 * length (q_Descriptors d), e + pad4 e))"
proof -
  have e: "length (concat (map Descriptor_Bytes (q_Descriptors d)) @ Available_Bytes (q_Available d))
      = 16 * length (q_Descriptors d) + 2 * length (a_ring (q_Available d)) + 6"
    by simp
  show ?thesis
    unfolding VirtualQueue_Bytes_def Let_def e pad4_def
    by (simp add: add_ac)
qed

lemma map_Init_desc:
  assumes "list_all (\<lambda>i. sz * i + len \<le> sl_cap buf) is" "(sl_ptr buf, sl_cap buf) \<in> set (blocks a)"
  shows "map (Init_desc a buf sz len flags) is =
     map (\<lambda>i. \<lparr>d_Address = of_nat (sl_ptr buf + sz * i), d_length = of_nat len, d_Flags = flags,
      d_Next = 0,
      d_buf = \<lparr>sl_ptr = sl_ptr buf + sz * i, sl_len = len, sl_cap = sl_cap buf - sz * i\<rparr>\<rparr>) is"
  using assms by (induction "is") (simp_all add: Init_desc_bound)

lemma read_write_bytes_inside:
  assumes "a \<le> b" "b + n \<le> a + length bs"
  shows "read_bytes (write_bytes a bs m) b n = take n (drop (b - a) bs)"
proof (rule nth_equalityI)
  show "length (read_bytes (write_bytes a bs m) b n) = length (take n (drop (b - a) bs))"
    using assms by (simp add: read_bytes_def)
next
  fix i assume "i < length (read_bytes (write_bytes a bs m) b n)"
  then have "i < n" by (simp add: read_bytes_def)
  then show "read_bytes (write_bytes a bs m) b n ! i = take n (drop (b - a) bs) ! i"
    using assms by (simp add: read_bytes_def write_bytes_def add.commute)
qed

lemma read_write_bytes_outside:
  assumes "b + n \<le> a \<or> a + length bs \<le> b"
  shows "read_bytes (write_bytes a bs m) b n = read_bytes m b n"
  using assms by (auto simp: read_bytes_def write_bytes_def)

lemma Init_zero_eq:
  "VirtualQueue_Init N L flags VirtualQueue_zero a m =
     (if list_all (\<lambda>i. N * i + L \<le> N * L) [0..<N]
      then (let base = align_up (brk a + N * L) 16;
                p = pad4 (18 * N + 6);
                ds = map (\<lambda>i. \<lparr>d_Address = of_nat (brk a + N * i), d_length = of_nat L,
                        d_Flags = flags, d_Next = 0,
                        d_buf = \<lparr>sl_ptr = brk a + N * i, sl_len = L, sl_cap = N * L - N * i\<rparr>\<rparr>)
                      [0..<N];
                av = \<lparr>a_Flags = 0, a_index = (if flags = Write then of_nat N else 0),
                      a_ring = map of_nat [0..<N], a_EventIndex = 0,
                      a_buf = \<lparr>sl_ptr = base + 16 * N, sl_len = 2 * N + 6 + p,
                               sl_cap = 10 * N + 12 + p\<rparr>\<rparr>;
                us = \<lparr>u_Flags = 0, u_index = 0, u_ring = replicate N Ring_zero,
                      u_AvailEvent = 0,
                      u_buf = \<lparr>sl_ptr = base + (18 * N + 6 + p), sl_len = 8 * N + 6,
                               sl_cap = 8 * N + 6\<rparr>,
                      u_last = 0\<rparr>
            in Inr (\<lparr>q_Descriptors = ds, q_Available = av, q_Used = us,
                     q_buf = \<lparr>sl_ptr = base, sl_len = 26 * N + 12 + p, sl_cap = 26 * N + 12 + p\<rparr>,
                     q_desc = base, q_driver = base + 16 * N,
                     q_device = base + (18 * N + 6 + p), q_size = of_nat N\<rparr>,
                    a\<lparr>blocks := (base, 26 * N + 12 + p) # (brk a, N * L) # blocks a,
                      brk := base + (26 * N + 12 + p)\<rparr>,
                    write_bytes base
                      (concat (map Descriptor_Bytes ds) @ Available_Bytes av
                         @ replicate p 0 @ Used_Bytes us) m))
      else Inl SliceBounds)"
proof (cases "list_all (\<lambda>i. N * i + L \<le> N * L) [0..<N]")
  case False
  then show ?thesis
    by (simp add: VirtualQueue_Init_def Reserve_def Let_def align_up_def Init_loop_eq)
next
  case True
  let ?buf = "\<lparr>sl_ptr = brk a, sl_len = N * L, sl_cap = N * L\<rparr>"
  let ?a1 = "a\<lparr>blocks := (brk a, N * L) # blocks a, brk := brk a + N * L\<rparr>"
  let ?mk = "\<lambda>f i. \<lparr>d_Address = of_nat (brk a + N * i), d_length = of_nat L, d_Flags = f,
          d_Next = 0,
          d_buf = \<lparr>sl_ptr = brk a + N * i, sl_len = L, sl_cap = N * L - N * i\<rparr>\<rparr>"
  have descs: "map (Init_desc ?a1 ?buf N L f) [0..<N] = map (?mk f) [0..<N]" for f
    using map_Init_desc [of N L ?buf "[0..<N]" ?a1 f] True by simp
  have "map Descriptor_Bytes (map (Init_desc ?a1 ?buf N L f) [0..<N])
      = map Descriptor_Bytes (map (?mk f) [0..<N])" for f
    by (simp only: descs)
  then have descs': "map (Descriptor_Bytes \<circ> Init_desc ?a1 ?buf N L f) [0..<N]
      = map (Descriptor_Bytes \<circ> ?mk f) [0..<N]" for f
    by (simp only: map_map)
  show ?thesis
    using True
    by (simp add: VirtualQueue_Init_def Reserve_def Let_def align_up_def Init_loop_eq
        VirtualQueue_Bytes_eq reslice_def slice_from_def VirtualQueue_zero_def
        copy_to_def Available_Bytes_def Used_Bytes_def descs descs')
qed

section \<open>The descriptor wire form\<close>

text \<open>
  C7. \<open>Descriptor.Bytes\<close> returns exactly 16 bytes: byte \<open>i\<close> of the 64-bit address at
  offset \<open>i\<close> (least significant byte first), the 32-bit length little-endian at offset 8,
  the 16-bit flags little-endian at offset 12 and the 16-bit next index little-endian at
  offset 14. Decoding those bytes with the reference decoder of this layout gives back
  the four wire fields of the descriptor, for all field values.
\<close>

theorem Descriptor_Bytes_layout_roundtrip:
  "length (Descriptor_Bytes d) = 16
   \<and> take 8 (Descriptor_Bytes d) = map (\<lambda>i. ucast (drop_bit (8 * i) (d_Address d))) [0..<8]
   \<and> take 4 (drop 8 (Descriptor_Bytes d)) = map (\<lambda>i. ucast (drop_bit (8 * i) (d_length d))) [0..<4]
   \<and> take 2 (drop 12 (Descriptor_Bytes d)) = map (\<lambda>i. ucast (drop_bit (8 * i) (d_Flags d))) [0..<2]
   \<and> drop 14 (Descriptor_Bytes d) = map (\<lambda>i. ucast (drop_bit (8 * i) (d_Next d))) [0..<2]
   \<and> decode_descriptor_ref (Descriptor_Bytes d) = Some (d\<lparr>d_buf := nil_slice\<rparr>)"
proof -
  have parts: "take 8 (Descriptor_Bytes d) = le_u64 (d_Address d)"
    "take 4 (drop 8 (Descriptor_Bytes d)) = le_u32 (d_length d)"
    "take 2 (drop 12 (Descriptor_Bytes d)) = le_u16 (d_Flags d)"
    "drop 14 (Descriptor_Bytes d) = le_u16 (d_Next d)"
    "take 2 (drop 14 (Descriptor_Bytes d)) = le_u16 (d_Next d)"
    by (simp_all add: Descriptor_Bytes_def)
  have "decode_descriptor_ref (Descriptor_Bytes d) = Some (d\<lparr>d_buf := nil_slice\<rparr>)"
    by (simp add: decode_descriptor_ref_def parts)
  then show ?thesis
    by (simp add: parts le_u16_bytes le_u32_bytes le_u64_bytes)
qed

lemma take_drop_concat_le_u16:
  "i < length xs \<Longrightarrow> take 2 (drop (2 * i) (concat (map le_u16 xs) @ ys)) = le_u16 (xs ! i)"
proof (induction xs arbitrary: i)
  case Nil
  then show ?case by simp
next
  case (Cons x xs)
  show ?case
  proof (cases i)
    case 0
    then show ?thesis by simp
  next
    case (Suc j)
    with Cons.prems have "j < length xs" by simp
    from Cons.IH [OF this] Suc show ?thesis by simp
  qed
qed

lemma Init_zero_Inr:
  assumes "VirtualQueue_Init N L flags VirtualQueue_zero a m = Inr (q, a', m')"
  shows "list_all (\<lambda>i. N * i + L \<le> N * L) [0..<N]"
    and "q_Descriptors q =
       map (\<lambda>i. \<lparr>d_Address = of_nat (brk a + N * i), d_length = of_nat L, d_Flags = flags,
          d_Next = 0,
          d_buf = \<lparr>sl_ptr = brk a + N * i, sl_len = L, sl_cap = N * L - N * i\<rparr>\<rparr>) [0..<N]"
    and "q_Available q = \<lparr>a_Flags = 0, a_index = (if flags = Write then of_nat N else 0),
                      a_ring = map of_nat [0..<N], a_EventIndex = 0,
                      a_buf = \<lparr>sl_ptr = q_desc q + 16 * N, sl_len = 2 * N + 6 + pad4 (18 * N + 6),
                               sl_cap = 10 * N + 12 + pad4 (18 * N + 6)\<rparr>\<rparr>"
    and "q_Used q = \<lparr>u_Flags = 0, u_index = 0, u_ring = replicate N Ring_zero,
                      u_AvailEvent = 0,
                      u_buf = \<lparr>sl_ptr = q_desc q + (18 * N + 6 + pad4 (18 * N + 6)), sl_len = 8 * N + 6,
                               sl_cap = 8 * N + 6\<rparr>,
                      u_last = 0\<rparr>"
    and "q_size q = of_nat N"
    and "q_driver q = q_desc q + 16 * N"
    and "q_device q = q_desc q + (18 * N + 6 + pad4 (18 * N + 6))"
    and "q_buf q = \<lparr>sl_ptr = q_desc q, sl_len = 26 * N + 12 + pad4 (18 * N + 6),
                     sl_cap = 26 * N + 12 + pad4 (18 * N + 6)\<rparr>"
    and "q_desc q = align_up (brk a + N * L) 16"
    and "m' = write_bytes (q_desc q)
               (concat (map Descriptor_Bytes (q_Descriptors q)) @ Available_Bytes (q_Available q)
                  @ replicate (pad4 (18 * N + 6)) 0 @ Used_Bytes (q_Used q)) m"
proof -
  have ok: "list_all (\<lambda>i. N * i + L \<le> N * L) [0..<N]"
    using assms by (simp add: Init_zero_eq split: if_splits)
  then show "list_all (\<lambda>i. N * i + L \<le> N * L) [0..<N]" .
  note eq = assms [unfolded Init_zero_eq Let_def, simplified ok if_True, simplified]
  from eq show "q_Descriptors q =
       map (\<lambda>i. \<lparr>d_Address = of_nat (brk a + N * i), d_length = of_nat L, d_Flags = flags,
          d_Next = 0,
          d_buf = \<lparr>sl_ptr = brk a + N * i, sl_len = L, sl_cap = N * L - N * i\<rparr>\<rparr>) [0..<N]"
    by auto
  from eq show "q_Available q = \<lparr>a_Flags = 0, a_index = (if flags = Write then of_nat N else 0),
                      a_ring = map of_nat [0..<N], a_EventIndex = 0,
                      a_buf = \<lparr>sl_ptr = q_desc q + 16 * N, sl_len = 2 * N + 6 + pad4 (18 * N + 6),
                               sl_cap = 10 * N + 12 + pad4 (18 * N + 6)\<rparr>\<rparr>"
    by auto
  from eq show "q_Used q = \<lparr>u_Flags = 0, u_index = 0, u_ring = replicate N Ring_zero,
                      u_AvailEvent = 0,
                      u_buf = \<lparr>sl_ptr = q_desc q + (18 * N + 6 + pad4 (18 * N + 6)), sl_len = 8 * N + 6,
                               sl_cap = 8 * N + 6\<rparr>,
                      u_last = 0\<rparr>"
    by auto
  from eq show "q_size q = of_nat N" by auto
  from eq show "q_driver q = q_desc q + 16 * N" by auto
  from eq show "q_device q = q_desc q + (18 * N + 6 + pad4 (18 * N + 6))" by auto
  from eq show "q_buf q = \<lparr>sl_ptr = q_desc q, sl_len = 26 * N + 12 + pad4 (18 * N + 6),
                     sl_cap = 26 * N + 12 + pad4 (18 * N + 6)\<rparr>" by auto
  from eq show "q_desc q = align_up (brk a + N * L) 16" by auto
  from eq show "m' = write_bytes (q_desc q)
               (concat (map Descriptor_Bytes (q_Descriptors q)) @ Available_Bytes (q_Available q)
                  @ replicate (pad4 (18 * N + 6)) 0 @ Used_Bytes (q_Used q)) m"
    by auto
qed


lemma image_avail_index:
  assumes "length D = k"
  shows "take 2 (drop (k + 2) (D @ Available_Bytes av @ rest)) = le_u16 (a_index av)"
  using assms by (simp add: Available_Bytes_def)

lemma image_avail_slot:
  assumes "length D = k" "n < length (a_ring av)"
  shows "take 2 (drop (k + 4 + 2 * n) (D @ Available_Bytes av @ rest)) = le_u16 (a_ring av ! n)"
proof -
  have "take 2 (drop (2 * n) (concat (map le_u16 (a_ring av)) @ (le_u16 (a_EventIndex av) @ rest)))
      = le_u16 (a_ring av ! n)"
    using assms(2) by (rule take_drop_concat_le_u16)
  then show ?thesis
    using assms(1) by (simp add: Available_Bytes_def)
qed

lemma Init_image_avail_index:
  assumes "VirtualQueue_Init N L flags VirtualQueue_zero a m = Inr (q, a', m')"
  shows "avail_index_image q m' = a_index (q_Available q)"
proof -
  note r = Init_zero_Inr [OF assms]
  have n: "length (q_Descriptors q) = N" "length (a_ring (q_Available q)) = N"
    "length (u_ring (q_Used q)) = N"
    by (simp_all add: r(2) r(3) r(4))
  have "read_bytes m' (q_driver q + 2) 2
      = take 2 (drop (16 * N + 2) (concat (map Descriptor_Bytes (q_Descriptors q))
           @ Available_Bytes (q_Available q)
           @ replicate (pad4 (18 * N + 6)) 0 @ Used_Bytes (q_Used q)))"
    unfolding r(10)
    by (subst read_write_bytes_inside) (simp_all add: r(6) n)
  also have "\<dots> = le_u16 (a_index (q_Available q))"
    by (rule image_avail_index) (simp add: n)
  finally show ?thesis by (simp add: avail_index_image_def)
qed

lemma Init_image_avail_slot:
  assumes "VirtualQueue_Init N L flags VirtualQueue_zero a m = Inr (q, a', m')" "n < N"
  shows "avail_slot_image q m' n = of_nat n"
proof -
  note r = Init_zero_Inr [OF assms(1)]
  have n: "length (q_Descriptors q) = N" "length (a_ring (q_Available q)) = N"
    "length (u_ring (q_Used q)) = N"
    by (simp_all add: r(2) r(3) r(4))
  have "read_bytes m' (q_driver q + 4 + 2 * n) 2
      = take 2 (drop (16 * N + 4 + 2 * n) (concat (map Descriptor_Bytes (q_Descriptors q))
           @ Available_Bytes (q_Available q)
           @ replicate (pad4 (18 * N + 6)) 0 @ Used_Bytes (q_Used q)))"
    unfolding r(10)
    using assms(2) by (subst read_write_bytes_inside) (simp_all add: r(6) n)
  also have "\<dots> = le_u16 (a_ring (q_Available q) ! n)"
    using assms(2) by (intro image_avail_slot) (simp_all add: n)
  also have "a_ring (q_Available q) ! n = of_nat n"
    using assms(2) by (simp add: r(3))
  finally show ?thesis by (simp add: avail_slot_image_def)
qed

section \<open>Receive queues are pre-filled\<close>

text \<open>
  Where \<open>Init(N, L, Write)\<close> on a fresh queue returns, for a capacity \<open>N\<close> that fits the
  16-bit index and a buffer length \<open>L\<close> that fits the 32-bit length field: the Available
  index in the DMA image reads back as \<open>N\<close>, the Available ring slots of the image (and
  the cached ring) hold the descriptor indices \<open>0, ..., N - 1\<close>, and there are \<open>N\<close>
  descriptors, each with recorded length \<open>L\<close> and a buffer of \<open>L\<close> bytes.
\<close>

lemma Init_Write_prefill:
  assumes "VirtualQueue_Init N L Write VirtualQueue_zero a m = Inr (q, a', m')"
    and "N < 65536" and "L < 4294967296"
  shows "unat (avail_index_image q m') = N
     \<and> map (\<lambda>n. unat (avail_slot_image q m' n)) [0..<N] = [0..<N]
     \<and> map unat (a_ring (q_Available q)) = [0..<N]
     \<and> length (q_Descriptors q) = N
     \<and> map (\<lambda>d. unat (d_length d)) (q_Descriptors q) = replicate N L
     \<and> map (\<lambda>d. sl_len (d_buf d)) (q_Descriptors q) = replicate N L"
proof -
  note r = Init_zero_Inr [OF assms(1)]
  have u16: "unat (of_nat n :: u16) = n" if "n \<le> N" for n
    using that assms(2) by (simp add: unat_of_nat)
  have u32: "unat (of_nat L :: u32) = L"
    using assms(3) by (simp add: unat_of_nat)
  have 1: "unat (avail_index_image q m') = N"
    by (simp add: Init_image_avail_index [OF assms(1)] r(3) u16)
  have 2: "map (\<lambda>n. unat (avail_slot_image q m' n)) [0..<N] = [0..<N]"
    by (rule nth_equalityI) (simp_all add: Init_image_avail_slot [OF assms(1)] u16)
  have 3: "map unat (a_ring (q_Available q)) = [0..<N]"
    by (rule nth_equalityI) (simp_all add: r(3) u16)
  have 4: "length (q_Descriptors q) = N"
    by (simp add: r(2))
  have 5: "map (\<lambda>d. unat (d_length d)) (q_Descriptors q) = replicate N L"
    by (rule nth_equalityI) (simp_all add: r(2) u32)
  have 6: "map (\<lambda>d. sl_len (d_buf d)) (q_Descriptors q) = replicate N L"
    by (rule nth_equalityI) (simp_all add: r(2))
  from 1 2 3 4 5 6 show ?thesis by simp
qed

lemma Init_4_64_returns:
  "\<exists>q a' m'. VirtualQueue_Init 4 64 flags VirtualQueue_zero dma0 mem0 = Inr (q, a', m')"
  by (simp add: Init_zero_eq Let_def upt_rec)

text \<open>The scenario of the specification, \<open>Init(4, 64, Write)\<close>, is such a call.\<close>

lemma Init_Write_prefill_scenario:
  "case VirtualQueue_Init 4 64 Write VirtualQueue_zero dma0 mem0 of
     Inl e \<Rightarrow> False
   | Inr (q, a', m') \<Rightarrow>
       unat (avail_index_image q m') = 4
       \<and> map (\<lambda>n. unat (avail_slot_image q m' n)) [0..<4] = [0..<4]
       \<and> length (q_Descriptors q) = 4
       \<and> map (\<lambda>d. unat (d_length d)) (q_Descriptors q) = replicate 4 64"
proof -
  obtain q a' m' where i: "VirtualQueue_Init 4 64 Write VirtualQueue_zero dma0 mem0 = Inr (q, a', m')"
    using Init_4_64_returns by blast
  from Init_Write_prefill [OF i] show ?thesis
    by (simp add: i)
qed

lemma Init_panics_when_capacity_exceeds_length:
  assumes "L < N" and "0 < L"
  shows "VirtualQueue_Init N L flags VirtualQueue_zero a m = Inl SliceBounds"
proof -
  have "L \<le> N - 1" using assms by simp
  then have "N * L \<le> N * (N - 1)" by (rule mult_le_mono2)
  with assms have "\<not> N * (N - 1) + L \<le> N * L" by linarith
  moreover have "N - 1 \<in> set [0..<N]" using assms by simp
  ultimately have "\<not> list_all (\<lambda>i. N * i + L \<le> N * L) [0..<N]"
    unfolding list_all_iff by blast
  then show ?thesis by (simp add: Init_zero_eq)
qed

text \<open>
  C8 says that after \<open>Init(N, L, Write)\<close> the Available index of the DMA image reads back
  as \<open>N\<close>, the Available ring is pre-filled with \<open>0, ..., N - 1\<close> and \<open>N\<close> descriptors of
  buffer length \<open>L\<close> exist, for every \<open>N\<close> and \<open>L\<close>. The loop of \<open>Init\<close> slices the
  region of \<open>N * L\<close> bytes at offset \<open>size * i\<close>, the slip of C1: whenever \<open>N > L \<ge> 1\<close>
  the slice of the last round ends past the region and \<open>Init\<close> panics before it builds
  the image. \<open>Init(8, 4, Write)\<close> and \<open>Init(256, 64, Write)\<close> end in a slice-bounds panic:
  no index is stored and no queue of \<open>N\<close> descriptors exists.
\<close>

theorem Init_Write_panics_for_short_buffers:
  "VirtualQueue_Init 8 4 Write VirtualQueue_zero dma0 mem0 = Inl SliceBounds
   \<and> VirtualQueue_Init 256 64 Write VirtualQueue_zero dma0 mem0 = Inl SliceBounds"
  by (simp add: Init_panics_when_capacity_exceeds_length)

section \<open>Descriptor buffers after Init\<close>

text \<open>
  C1 says that \<open>Init(N, L, flags)\<close> binds descriptor \<open>i\<close> to the \<open>L\<close> bytes at offset
  \<open>i * L\<close> of one region of \<open>N * L\<close> bytes. The loop computes the offset as \<open>size * i\<close>:
  \<open>Init(4, 64, Write)\<close> reserves the 256 bytes at 4096 and binds the four descriptors to
  the 64 bytes at 4096, 4100, 4104 and 4108, which overlap and leave the bytes from 4172
  on unused.
\<close>

theorem Init_4_64_buffers_overlap:
  "case VirtualQueue_Init 4 64 Write VirtualQueue_zero dma0 mem0 of
     Inl e \<Rightarrow> False
   | Inr (q, a', m') \<Rightarrow>
       last (blocks a') = (4096, 256)
       \<and> map (\<lambda>d. (sl_ptr (d_buf d), sl_len (d_buf d))) (q_Descriptors q)
           = [(4096, 64), (4100, 64), (4104, 64), (4108, 64)]"
  by (simp add: Init_zero_eq Let_def upt_rec dma0_def)


lemma Bytes_device_offset:
  "(case VirtualQueue_Bytes d of (bytes, driver, device) \<Rightarrow>
      device mod 4 = 0
      \<and> driver = 16 * length (q_Descriptors d)
      \<and> (let e = 16 * length (q_Descriptors d) + 2 * length (a_ring (q_Available d)) + 6
         in device = (if e mod 4 = 0 then e else e + (4 - e mod 4))
            \<and> take (device - e) (drop e bytes) = replicate (device - e) 0))"
proof -
  let ?e = "16 * length (q_Descriptors d) + 2 * length (a_ring (q_Available d)) + 6"
  have dr: "drop ?e
       (concat (map Descriptor_Bytes (q_Descriptors d)) @ Available_Bytes (q_Available d) @ rest)
      = rest" for rest
    by simp
  show ?thesis
    unfolding VirtualQueue_Bytes_eq Let_def prod.case
    by (simp only: dr pad4_aligned) (simp add: pad4_def)
qed

lemma Init_device_offset:
  assumes "VirtualQueue_Init N L flags d a m = Inr (q, a', m')"
  shows "(q_device q - q_desc q) mod 4 = 0 \<and> q_desc q \<le> q_device q"
  using assms
  by (auto simp: VirtualQueue_Init_def Let_def then_do_eq_Inr Reserve_def VirtualQueue_Bytes_eq
      pad4_aligned split: prod.splits if_splits)

section \<open>Alignment of the device area\<close>

text \<open>
  C9. For every queue, the device-area offset that \<open>VirtualQueue.Bytes\<close> returns is a
  multiple of 4: with \<open>e\<close> the end of the Available ring (\<open>16 N + 2 N + 6\<close> for \<open>N\<close>
  descriptors and ring entries) it is \<open>e\<close> when \<open>e\<close> is 4-aligned and \<open>e\<close> plus the
  missing \<open>4 - e mod 4\<close> bytes otherwise, and the bytes in between are zero. Hence whenever
  \<open>Init\<close> returns, the device address it stores lies a multiple of 4 past the start of
  the DMA block, for every capacity and buffer length.
\<close>

theorem device_area_offset_aligned:
  "(case VirtualQueue_Bytes d of (bytes, driver, device) \<Rightarrow>
      device mod 4 = 0
      \<and> driver = 16 * length (q_Descriptors d)
      \<and> (let e = 16 * length (q_Descriptors d) + 2 * length (a_ring (q_Available d)) + 6
         in device = (if e mod 4 = 0 then e else e + (4 - e mod 4))
            \<and> take (device - e) (drop e bytes) = replicate (device - e) 0))
   \<and> (VirtualQueue_Init N L flags d a m = Inr (q, a', m')
        \<longrightarrow> q_desc q \<le> q_device q \<and> (q_device q - q_desc q) mod 4 = 0)
   \<and> (VirtualQueue_Init N L flags VirtualQueue_zero a m = Inr (q0, a0, m0)
        \<longrightarrow> q_device q0 - q_desc q0
             = (let e = 16 * N + 2 * N + 6 in if e mod 4 = 0 then e else e + (4 - e mod 4)))"
proof (intro conjI impI)
  show "case VirtualQueue_Bytes d of (bytes, driver, device) \<Rightarrow>
      device mod 4 = 0
      \<and> driver = 16 * length (q_Descriptors d)
      \<and> (let e = 16 * length (q_Descriptors d) + 2 * length (a_ring (q_Available d)) + 6
         in device = (if e mod 4 = 0 then e else e + (4 - e mod 4))
            \<and> take (device - e) (drop e bytes) = replicate (device - e) 0)"
    by (rule Bytes_device_offset)
next
  assume "VirtualQueue_Init N L flags d a m = Inr (q, a', m')"
  from Init_device_offset [OF this]
  show "q_desc q \<le> q_device q" "(q_device q - q_desc q) mod 4 = 0" by simp_all
next
  assume "VirtualQueue_Init N L flags VirtualQueue_zero a m = Inr (q0, a0, m0)"
  from Init_zero_Inr(7) [OF this]
  show "q_device q0 - q_desc q0
      = (let e = 16 * N + 2 * N + 6 in if e mod 4 = 0 then e else e + (4 - e mod 4))"
    by (simp add: pad4_def Let_def)
qed

text \<open>\<open>Init(4, 64, Write)\<close>: the device area starts 80 bytes into the block.\<close>

theorem device_area_offset_aligned_witness:
  "case VirtualQueue_Init 4 64 Write VirtualQueue_zero dma0 mem0 of
     Inl e \<Rightarrow> False
   | Inr (q, a', m') \<Rightarrow>
       q_desc q \<le> q_device q \<and> (q_device q - q_desc q) mod 4 = 0
       \<and> q_device q - q_desc q = 80"
proof -
  obtain q a' m' where i: "VirtualQueue_Init 4 64 Write VirtualQueue_zero dma0 mem0 = Inr (q, a', m')"
    using Init_4_64_returns by blast
  from device_area_offset_aligned [of VirtualQueue_zero 4 64 Write dma0 mem0 q a' m' q a' m'] i
  show ?thesis
    by (simp add: Let_def)
qed

section \<open>Lemmas on Push\<close>

lemma slice_from_Inr:
  "slice_from b lo = Inr s \<longleftrightarrow>
     lo \<le> sl_len b
     \<and> s = \<lparr>sl_ptr = sl_ptr b + lo, sl_len = sl_len b - lo, sl_cap = sl_cap b - lo\<rparr>"
  by (auto simp: slice_from_def)

lemma PutUint16_Inr:
  "PutUint16 b v m = Inr m' \<longleftrightarrow> 2 \<le> sl_len b \<and> m' = write_bytes (sl_ptr b) (le_u16 v) m"
  by (auto simp: PutUint16_def)

lemma PutUint32_Inr:
  "PutUint32 b v m = Inr m' \<longleftrightarrow> 4 \<le> sl_len b \<and> m' = write_bytes (sl_ptr b) (le_u32 v) m"
  by (auto simp: PutUint32_def)

lemma GetUint16_Inr:
  "GetUint16 b m = Inr v \<longleftrightarrow> 2 \<le> sl_len b \<and> v = Uint16 (read_bytes m (sl_ptr b) 2)"
  by (auto simp: GetUint16_def)

lemma Available_SetIndex_Inr:
  "Available_SetIndex i d m = Inr (d', m') \<longleftrightarrow>
     4 \<le> sl_len (a_buf d) \<and> d' = d\<lparr>a_index := i\<rparr>
     \<and> m' = write_bytes (sl_ptr (a_buf d) + 2) (le_u16 i) m"
  by (auto simp: Available_SetIndex_def then_do_eq_Inr slice_from_Inr PutUint16_Inr)

lemma Available_SetRingIndex_Inr:
  "Available_SetRingIndex n i d m = Inr (d', m') \<longleftrightarrow>
     unat (4 + n * 2) + 2 \<le> sl_len (a_buf d) \<and> unat n < length (a_ring d)
     \<and> d' = d\<lparr>a_ring := (a_ring d)[unat n := i]\<rparr>
     \<and> m' = write_bytes (sl_ptr (a_buf d) + unat (4 + n * 2)) (le_u16 i) m"
  by (auto simp: Available_SetRingIndex_def then_do_eq_Inr slice_from_Inr PutUint16_Inr Let_def)

lemma Available_Ring_Inr:
  "Available_Ring n d m = Inr (d', v) \<longleftrightarrow>
     unat (4 + n * 2) + 2 \<le> sl_len (a_buf d) \<and> unat n < length (a_ring d)
     \<and> v = Uint16 (read_bytes m (sl_ptr (a_buf d) + unat (4 + n * 2)) 2)
     \<and> d' = d\<lparr>a_ring := (a_ring d)[unat n := v]\<rparr>"
  by (auto simp: Available_Ring_def then_do_eq_Inr slice_from_Inr GetUint16_Inr Let_def)

lemma Used_Index_Inr:
  "Used_Index d m = Inr (d', v) \<longleftrightarrow>
     4 \<le> sl_len (u_buf d) \<and> v = Uint16 (read_bytes m (sl_ptr (u_buf d) + 2) 2)
     \<and> d' = d\<lparr>u_index := v\<rparr>"
  by (auto simp: Used_Index_def then_do_eq_Inr slice_from_Inr GetUint16_Inr)

lemma Used_Ring_frame:
  assumes "Used_Ring n d m = Inr (d', r)"
  shows "u_buf d' = u_buf d" "u_last d' = u_last d" "length (u_ring d') = length (u_ring d)"
    "unat n < length (u_ring d)"
  using assms
  by (auto simp: Used_Ring_def then_do_eq_Inr slice_from_Inr Let_def split: if_splits)

lemma write_bytes_overwrite:
  "length bs = length cs \<Longrightarrow> write_bytes a bs (write_bytes a cs m) = write_bytes a bs m"
  by (auto simp: write_bytes_def fun_eq_iff)

lemma Push_loop_result:
  assumes "Push_loop k sz av u m = Inr (av', u', m')"
  shows "a_index av' = a_index av \<and> a_buf av' = a_buf av
     \<and> length (a_ring av') = length (a_ring av)
     \<and> u_last u' = u_last u \<and> u_buf u' = u_buf u \<and> length (u_ring u') = length (u_ring u)
     \<and> (if k = 0 then m' = m \<and> av' = av
         else unat (a_index av mod sz) < length (a_ring av)
           \<and> (\<exists>v. m' = write_bytes (sl_ptr (a_buf av) + unat (4 + (a_index av mod sz) * 2))
                        (le_u16 v) m))"
  using assms
proof (induction k arbitrary: av u m)
  case 0
  then show ?case by simp
next
  case (Suc j)
  from Suc.prems obtain u1 r av1 m1 where
    nz: "sz \<noteq> 0" and
    ur: "Used_Ring (of_nat j) u m = Inr (u1, r)" and
    sr: "Available_SetRingIndex (a_index av mod sz) (ucast (r_Index r)) av m = Inr (av1, m1)" and
    rest: "Push_loop j sz av1 u1 m1 = Inr (av', u', m')"
    by (auto simp: then_do_eq_Inr split: if_splits)
  note f = Used_Ring_frame [OF ur]
  from sr have av1: "a_index av1 = a_index av" "a_buf av1 = a_buf av"
    "length (a_ring av1) = length (a_ring av)"
    "unat (a_index av mod sz) < length (a_ring av)"
    and m1: "m1 = write_bytes (sl_ptr (a_buf av) + unat (4 + (a_index av mod sz) * 2))
                        (le_u16 (ucast (r_Index r))) m"
    by (auto simp: Available_SetRingIndex_Inr)
  note ih = Suc.IH [OF rest]
  show ?case
  proof (cases "j = 0")
    case True
    with ih av1 m1 f show ?thesis by auto
  next
    case False
    with ih av1 m1 f show ?thesis by (auto simp: write_bytes_overwrite)
  qed
qed


lemma unat_slot_offset:
  fixes n :: u16
  assumes "unat n \<le> 32765"
  shows "unat (4 + n * 2) = 4 + 2 * unat n"
  using assms by (simp add: unat_word_ariths)

lemma unat_length_offset:
  fixes idx :: u16
  assumes "unat idx < N"
  shows "unat (8 + idx * 16) + 4 \<le> 16 * N"
proof (cases "8 + 16 * unat idx < 65536")
  case True
  then have "unat (8 + idx * 16) = 8 + 16 * unat idx"
    by (simp add: unat_word_ariths)
  with assms show ?thesis by simp
next
  case False
  have "unat (8 + idx * 16) < 65536"
    using unsigned_less [of "8 + idx * 16", where 'a=nat] by simp
  with False assms show ?thesis by simp
qed

lemma Push_Inr_result:
  assumes wf: "queue_layout q" and small: "unat (q_size q) \<le> 32766"
    and push: "VirtualQueue_Push buf q m = Inr (q', m')"
  defines "n \<equiv> unat (a_index (q_Available q) mod q_size q)"
    and "n' \<equiv> unat ((a_index (q_Available q) + 1) mod q_size q)"
  defines "idx \<equiv> avail_slot_image q m n"
  defines "d \<equiv> q_Descriptors q ! unat idx"
  defines "m1 \<equiv> write_bytes (q_desc q + unat (8 + idx * 16)) (le_u32 (of_nat (length buf))) m"
  defines "m2 \<equiv> write_bytes (sl_ptr (d_buf d)) (take (sl_len (d_buf d)) buf) m1"
  defines "m3 \<equiv> write_bytes (q_driver q + 2) (le_u16 (a_index (q_Available q) + 1)) m2"
  shows "q_size q \<noteq> 0" and "n < unat (q_size q)" and "n' < unat (q_size q)"
    and "unat idx < unat (q_size q)"
    and "a_index (q_Available q') = a_index (q_Available q) + 1"
    and "q_Descriptors q' = (q_Descriptors q)[unat idx := d\<lparr>d_length := of_nat (length buf)\<rparr>]"
    and "q_driver q' = q_driver q" and "q_size q' = q_size q" and "q_desc q' = q_desc q"
    and "u_last (q_Used q') = used_index_image q m"
    and "m' = m3 \<or> (\<exists>v. m' = write_bytes (q_driver q + 4 + 2 * n') (le_u16 v) m3)"
proof -
  from wf have lay:
    "length (q_Descriptors q) = unat (q_size q)"
    "length (a_ring (q_Available q)) = unat (q_size q)"
    "sl_ptr (q_buf q) = q_desc q"
    "sl_ptr (a_buf (q_Available q)) = q_driver q"
    "sl_ptr (u_buf (q_Used q)) = q_device q"
    by (simp_all add: queue_layout_def)
  from push have nz: "q_size q \<noteq> 0"
    by (auto simp: VirtualQueue_Push_def split: if_splits)
  then have Npos: "0 < unat (q_size q)"
    by (simp add: unat_gt_0)
  have n: "n < unat (q_size q)" and n': "n' < unat (q_size q)"
    using Npos by (simp_all add: n_def n'_def unat_mod)
  have off: "unat (4 + (a_index (q_Available q) mod q_size q) * 2) = 4 + 2 * n"
    using n small by (simp add: n_def unat_slot_offset)
  have off': "unat (4 + ((a_index (q_Available q) + 1) mod q_size q) * 2) = 4 + 2 * n'"
    using n' small by (simp add: n'_def unat_slot_offset)
  from push nz obtain av1 u1 av2 av3 u2 mm3 mm4 where
    ar: "Available_Ring (a_index (q_Available q) mod q_size q) (q_Available q) m = Inr (av1, idx)"
    and ui: "Used_Index (q_Used q) m = Inr (u1, used_index_image q m)"
    and il: "unat idx < length (q_Descriptors q)"
    and si: "Available_SetIndex (a_index av1 + 1) av1 m2 = Inr (av2, mm3)"
    and lp: "Push_loop (unat (used_index_image q m - u_last u1)) (q_size q) av2 u1 mm3
               = Inr (av3, u2, mm4)"
    and q': "q' = q\<lparr>q_Descriptors := (q_Descriptors q)[unat idx := d\<lparr>d_length := of_nat (length buf)\<rparr>],
                   q_Available := av3,
                   q_Used := u2\<lparr>u_last := u_last u2 + (used_index_image q m - u_last u1)\<rparr>\<rparr>"
    and m': "m' = mm4"
    unfolding VirtualQueue_Push_def
    by (auto simp: then_do_eq_Inr Available_Ring_Inr Used_Index_Inr slice_from_Inr PutUint32_Inr
        Descriptor_Write_def copy_to_def Let_def lay off avail_slot_image_def used_index_image_def
        idx_def d_def m1_def m2_def add.assoc
        split: if_splits prod.splits)
  from ar have av1: "a_index av1 = a_index (q_Available q)" "a_buf av1 = a_buf (q_Available q)"
    "length (a_ring av1) = length (a_ring (q_Available q))"
    by (auto simp: Available_Ring_Inr)
  from ui have u1: "u_last u1 = u_last (q_Used q)"
    by (auto simp: Used_Index_Inr)
  from si av1 have av2: "a_index av2 = a_index (q_Available q) + 1"
    "a_buf av2 = a_buf (q_Available q)" and mm3: "mm3 = m3"
    by (auto simp: Available_SetIndex_Inr m3_def lay)
  note l = Push_loop_result [OF lp]
  show "q_size q \<noteq> 0" by (rule nz)
  show "n < unat (q_size q)" by (rule n)
  show "n' < unat (q_size q)" by (rule n')
  show "unat idx < unat (q_size q)" using il lay by simp
  show "a_index (q_Available q') = a_index (q_Available q) + 1"
    using l av2 by (simp add: q')
  show "q_Descriptors q' = (q_Descriptors q)[unat idx := d\<lparr>d_length := of_nat (length buf)\<rparr>]"
    by (simp add: q')
  show "q_driver q' = q_driver q" "q_size q' = q_size q" "q_desc q' = q_desc q"
    by (simp_all add: q')
  show "u_last (q_Used q') = used_index_image q m"
    using l by (simp add: q' u1)
  show "m' = m3 \<or> (\<exists>v. m' = write_bytes (q_driver q + 4 + 2 * n') (le_u16 v) m3)"
    using l by (auto simp: m' mm3 av2 lay off' add.assoc split: if_splits)
qed


lemma Push_image_reads:
  assumes wf: "queue_layout q" and small: "unat (q_size q) \<le> 32766"
    and push: "VirtualQueue_Push buf q m = Inr (q', m')"
  shows "avail_index_image q' m' = a_index (q_Available q) + 1"
    and "j < unat (q_size q) \<Longrightarrow> j \<noteq> unat ((a_index (q_Available q) + 1) mod q_size q)
          \<Longrightarrow> avail_slot_image q' m' j = avail_slot_image q m j"
proof -
  note r = Push_Inr_result [OF wf small push]
  let ?N = "unat (q_size q)"
  let ?idx = "avail_slot_image q m (unat (a_index (q_Available q) mod q_size q))"
  let ?d = "q_Descriptors q ! unat ?idx"
  let ?n' = "unat ((a_index (q_Available q) + 1) mod q_size q)"
  let ?m1 = "write_bytes (q_desc q + unat (8 + ?idx * 16)) (le_u32 (of_nat (length buf))) m"
  let ?m2 = "write_bytes (sl_ptr (d_buf ?d)) (take (sl_len (d_buf ?d)) buf) ?m1"
  let ?m3 = "write_bytes (q_driver q + 2) (le_u16 (a_index (q_Available q) + 1)) ?m2"
  from wf have lay: "q_driver q = q_desc q + 16 * ?N" "q_driver q + 2 * ?N + 6 \<le> q_device q"
    "q_device q \<le> q_desc q + sl_len (q_buf q)" "length (q_Descriptors q) = ?N"
    and all: "list_all (\<lambda>d. sl_ptr (d_buf d) + sl_len (d_buf d) \<le> q_desc q
                      \<or> q_desc q + sl_len (q_buf q) \<le> sl_ptr (d_buf d)) (q_Descriptors q)"
    by (simp_all add: queue_layout_def)
  from all r(4) lay(4)
  have dis: "sl_ptr (d_buf ?d) + sl_len (d_buf ?d) \<le> q_desc q
      \<or> q_desc q + sl_len (q_buf q) \<le> sl_ptr (d_buf ?d)"
    by (simp add: list_all_length)
  have lenoff: "unat (8 + ?idx * 16) + 4 \<le> 16 * ?N"
    using r(4) by (rule unat_length_offset)
  have idx3: "read_bytes ?m3 (q_driver q + 2) 2 = le_u16 (a_index (q_Available q) + 1)"
    by (subst read_write_bytes_inside) simp_all
  have "read_bytes m' (q_driver q + 2) 2 = le_u16 (a_index (q_Available q) + 1)"
  proof -
    from r(11) consider "m' = ?m3"
      | v where "m' = write_bytes (q_driver q + 4 + 2 * ?n') (le_u16 v) ?m3"
      by blast
    then show ?thesis
    proof cases
      case 1
      with idx3 show ?thesis by simp
    next
      case 2
      have "read_bytes m' (q_driver q + 2) 2 = read_bytes ?m3 (q_driver q + 2) 2"
        unfolding 2 by (rule read_write_bytes_outside) simp
      with idx3 show ?thesis by simp
    qed
  qed
  then show "avail_index_image q' m' = a_index (q_Available q) + 1"
    by (simp add: avail_index_image_def r(7))
  assume j: "j < ?N" "j \<noteq> ?n'"
  have "read_bytes ?m3 (q_driver q + 4 + 2 * j) 2 = read_bytes ?m2 (q_driver q + 4 + 2 * j) 2"
    by (rule read_write_bytes_outside) simp
  also have "\<dots> = read_bytes ?m1 (q_driver q + 4 + 2 * j) 2"
    using dis lay j by (intro read_write_bytes_outside) auto
  also have "\<dots> = read_bytes m (q_driver q + 4 + 2 * j) 2"
    using lenoff lay by (intro read_write_bytes_outside) simp
  finally have s3: "read_bytes ?m3 (q_driver q + 4 + 2 * j) 2 = read_bytes m (q_driver q + 4 + 2 * j) 2" .
  have "read_bytes m' (q_driver q + 4 + 2 * j) 2 = read_bytes m (q_driver q + 4 + 2 * j) 2"
  proof -
    from r(11) consider "m' = ?m3"
      | v where "m' = write_bytes (q_driver q + 4 + 2 * ?n') (le_u16 v) ?m3"
      by blast
    then show ?thesis
    proof cases
      case 1
      with s3 show ?thesis by simp
    next
      case 2
      have "read_bytes m' (q_driver q + 4 + 2 * j) 2 = read_bytes ?m3 (q_driver q + 4 + 2 * j) 2"
        unfolding 2 using j(2) by (intro read_write_bytes_outside) auto
      with s3 show ?thesis by simp
    qed
  qed
  then show "avail_slot_image q' m' j = avail_slot_image q m j"
    by (simp add: avail_slot_image_def r(7))
qed

lemma read_bytes_2: "read_bytes m a 2 = [m a, m (Suc a)]"
  by (simp add: read_bytes_def upt_rec)

lemma read_bytes_4: "read_bytes m a 4 = [m a, m (a + 1), m (a + 2), m (a + 3)]"
  by (simp add: read_bytes_def upt_rec numeral_eq_Suc)

lemma Init_zero_layout:
  assumes "VirtualQueue_Init N L flags VirtualQueue_zero a m = Inr (q, a', m')" and "N < 65536"
  shows "queue_layout q" and "unat (q_size q) = N"
proof -
  note r = Init_zero_Inr [OF assms(1)]
  show n: "unat (q_size q) = N"
    using assms(2) by (simp add: r(5) unat_of_nat)
  have base: "brk a + N * L \<le> q_desc q"
    unfolding r(9) align_up_def by simp
  have ok: "N * i + L \<le> N * L" if "i < N" for i
    using r(1) that by (simp add: list_all_iff)
  have one: "brk a + N * i + L \<le> q_desc q" if "i < N" for i
    using ok [OF that] base by linarith
  have "list_all (\<lambda>d. sl_ptr (d_buf d) + sl_len (d_buf d) \<le> q_desc q
                      \<or> q_desc q + sl_len (q_buf q) \<le> sl_ptr (d_buf d)) (q_Descriptors q)"
    unfolding r(2) by (simp add: list_all_iff one)
  then show "queue_layout q"
    unfolding queue_layout_def n
    by (simp add: r(2) r(3) r(4) r(6) r(7) r(8))
qed

section \<open>Push and the published index\<close>

text \<open>
  On a queue laid out as \<open>Init\<close> lays it out, of capacity at most 32766 (where the 16-bit
  slot offset \<open>4 + 2 n\<close> cannot wrap) and whose cached Available index agrees with the DMA
  image: when \<open>Push\<close> returns, the published Available index has advanced by exactly 1
  (mod \<open>2^16\<close>), whatever the number of pending Used completions the call recycles; the
  cached index agrees with it again; and the only Available ring slot that may have
  changed is the one at the position of the new index, which is not yet published.
\<close>

lemma Push_index_advances_by_one:
  assumes "queue_layout q" and "unat (q_size q) \<le> 32766"
    and "avail_index_image q m = a_index (q_Available q)"
    and "VirtualQueue_Push buf q m = Inr (q', m')"
  shows "avail_index_image q' m' = avail_index_image q m + 1
     \<and> a_index (q_Available q') = avail_index_image q' m'
     \<and> (\<forall>j < unat (q_size q). j \<noteq> unat ((avail_index_image q m + 1) mod q_size q)
           \<longrightarrow> avail_slot_image q' m' j = avail_slot_image q m j)"
  using Push_image_reads [OF assms(1,2,4)] Push_Inr_result(5) [OF assms(1,2,4)] assms(3)
  by simp

lemma Push_loop_numeral:
  "Push_loop (numeral k) sz av u m = Push_loop (Suc (pred_numeral k)) sz av u m"
  by (simp add: numeral_eq_Suc)

lemma replicate_numeral_Cons: "replicate (numeral k) x = x # replicate (pred_numeral k) x"
  by (simp add: numeral_eq_Suc)

lemmas exec_defs0 =
  VirtualQueue_Push_def VirtualQueue_Pop_def Available_Ring_def Available_SetIndex_def
  Available_SetRingIndex_def Used_Index_def Used_Ring_def Descriptor_Write_def Descriptor_Read_def
  slice_from_def GetUint16_def PutUint16_def PutUint32_def copy_to_def device_uses_def
  read_bytes_2 read_bytes_4 write_bytes_def Let_def
  avail_index_image_def avail_slot_image_def used_index_image_def
  Uint16_def Uint32_def le_u16_def le_u32_def le_u64_def
  Descriptor_Bytes_def Available_Bytes_def Used_Bytes_def Ring_Bytes_def Ring_zero_def mem0_def

lemmas exec_defs = Push_loop_numeral replicate_numeral_Cons exec_defs0

lemmas init4_defs = Init_zero_eq Let_def upt_rec dma0_def align_up_def pad4_def

lemma Push_after_Init_4_64_returns:
  "case VirtualQueue_Init 4 64 0 VirtualQueue_zero dma0 mem0 of
     Inl e \<Rightarrow> False
   | Inr (q, a, m) \<Rightarrow>
      (case VirtualQueue_Push [1, 2, 3] q (device_uses q 1 1 64 (device_uses q 0 0 64 m)) of
         Inl e \<Rightarrow> False
       | Inr (q', m') \<Rightarrow> True)"
  apply (simp add: init4_defs Write_def)
  apply (simp add: exec_defs)
  done

text \<open>
  A transmit queue \<open>Init(4, 64, 0)\<close> for which the device has completed two buffers:
  \<open>Push\<close> returns, the index goes from 0 to 1 and the slots 0, 2 and 3 are untouched.
\<close>

lemma Push_index_advances_by_one_scenario:
  "case VirtualQueue_Init 4 64 0 VirtualQueue_zero dma0 mem0 of
     Inl e \<Rightarrow> False
   | Inr (q, a, m) \<Rightarrow>
      (case VirtualQueue_Push [1, 2, 3] q (device_uses q 1 1 64 (device_uses q 0 0 64 m)) of
         Inl e \<Rightarrow> False
       | Inr (q', m') \<Rightarrow>
           queue_layout q \<and> unat (q_size q) \<le> 32766
           \<and> avail_index_image q' m' = 1
           \<and> a_index (q_Available q') = 1
           \<and> (\<forall>j<4. j \<noteq> 1 \<longrightarrow> avail_slot_image q' m' j = of_nat j))"
proof -
  obtain q a m where i: "VirtualQueue_Init 4 64 0 VirtualQueue_zero dma0 mem0 = Inr (q, a, m)"
    using Init_4_64_returns by blast
  let ?m = "device_uses q 1 1 64 (device_uses q 0 0 64 m)"
  from Push_after_Init_4_64_returns i
  obtain q' m' where p: "VirtualQueue_Push [1, 2, 3] q ?m = Inr (q', m')"
    by (auto split: sum.splits)
  note r = Init_zero_Inr [OF i]
  have lay: "queue_layout q" and n: "unat (q_size q) = 4"
    using Init_zero_layout [OF i] by simp_all
  have W: "(0::u16) \<noteq> Write" by (simp add: Write_def)
  have rd: "read_bytes ?m (q_driver q + k) 2 = read_bytes m (q_driver q + k) 2" if "k \<le> 12" for k
    unfolding device_uses_def using that
    by (simp add: read_write_bytes_outside r(6) r(7) pad4_def)
  have idx: "avail_index_image q ?m = a_index (q_Available q)"
    using rd [of 2] Init_image_avail_index [OF i] by (simp add: avail_index_image_def)
  have a0: "a_index (q_Available q) = 0"
    using W by (simp add: r(3))
  have slot: "avail_slot_image q ?m j = of_nat j" if "j < 4" for j
    using rd [of "4 + 2 * j"] Init_image_avail_slot [OF i that] that
    by (simp add: avail_slot_image_def add.assoc)
  have sz: "q_size q = 4"
    by (simp add: r(5))
  have idx0: "avail_index_image q ?m = 0"
    using idx a0 by simp
  have le: "unat (q_size q) \<le> 32766"
    using n by simp
  have "avail_index_image q' m' = 1 \<and> a_index (q_Available q') = 1
     \<and> (\<forall>j<4. j \<noteq> 1 \<longrightarrow> avail_slot_image q' m' j = avail_slot_image q ?m j)"
    using Push_index_advances_by_one [OF lay le idx p]
    unfolding idx0 sz n by simp
  with slot lay n show ?thesis
    by (simp only: i p sum.case prod.case) simp
qed


lemma Init_32768_returns:
  "\<exists>q a m. VirtualQueue_Init 32768 32768 0 VirtualQueue_zero dma0 mem0 = Inr (q, a, m)"
  by (simp add: Init_zero_eq list_all_iff Let_def)

text \<open>
  C10 says that every \<open>Push\<close> advances the published Available index by exactly 1 and
  that the recycling loop writes ring slots only, never the index. \<open>SetRingIndex\<close> means
  to write slot \<open>n\<close>, and caches the value as slot \<open>n\<close>, but computes the offset
  \<open>4 + n*2\<close> in \<open>uint16\<close>. At capacity 32768, which VirtIO allows, with the Available
  index at 32766 and one completion pending (of descriptor 0), \<open>Push\<close> publishes index
  32767 and then recycles into slot 32767, whose offset \<open>4 + 32767 * 2\<close> wraps to 2: the
  recycled descriptor index lands on the index field, and the published index goes from
  32766 to 0. Below that capacity the lemma above gives what the claim says.
\<close>

theorem Push_overwrites_index_at_capacity_32768:
  "case VirtualQueue_Init 32768 32768 0 VirtualQueue_zero dma0 mem0 of
     Inl e \<Rightarrow> False
   | Inr (q, a, m) \<Rightarrow>
      (case VirtualQueue_Push [1, 2, 3]
              (q\<lparr>q_Available := (q_Available q)\<lparr>a_index := 32766\<rparr>\<rparr>)
              (device_uses q 0 0 64 (write_bytes (q_driver q) (le_u16 0 @ le_u16 32766) m)) of
         Inl e \<Rightarrow> False
       | Inr (q', m') \<Rightarrow>
           avail_index_image q
             (device_uses q 0 0 64 (write_bytes (q_driver q) (le_u16 0 @ le_u16 32766) m)) = 32766
           \<and> avail_index_image q' m' = 0)"
proof -
  obtain q a m where i: "VirtualQueue_Init 32768 32768 0 VirtualQueue_zero dma0 mem0 = Inr (q, a, m)"
    using Init_32768_returns by blast
  note r = Init_zero_Inr [OF i]
  have W: "(0::u16) \<noteq> Write" by (simp add: Write_def)
  have desc: "q_desc q = 1073745920"
    by (simp add: r(9) dma0_def align_up_def)
  have "case VirtualQueue_Push [1, 2, 3]
              (q\<lparr>q_Available := (q_Available q)\<lparr>a_index := 32766\<rparr>\<rparr>)
              (device_uses q 0 0 64 (write_bytes (q_driver q) (le_u16 0 @ le_u16 32766) m)) of
         Inl e \<Rightarrow> False
       | Inr (q', m') \<Rightarrow>
           avail_index_image q
             (device_uses q 0 0 64 (write_bytes (q_driver q) (le_u16 0 @ le_u16 32766) m)) = 32766
           \<and> avail_index_image q' m' = 0"
    using W
    by (simp add: exec_defs0 r(2) r(3) r(4) r(5) r(6) r(7) r(8) desc pad4_def dma0_def)
  then show ?thesis
    by (simp only: i sum.case prod.case)
qed

section \<open>Pop\<close>

lemma read_bytes_0: "read_bytes m a 0 = []"
  by (simp add: read_bytes_def)

lemma read_bytes_Suc: "read_bytes m a (Suc n) = m a # read_bytes m (Suc a) n"
  by (simp add: read_bytes_def upt_rec)

lemmas trace_defs = exec_defs upt_rec read_bytes_0 read_bytes_Suc

text \<open>
  C3 says that \<open>Pop\<close> returns the buffer of the Used entry at position
  \<open>lastSeenIndex mod N\<close>, advances the Available index and \<open>lastSeenIndex\<close> by 1, and
  writes the descriptor index into the slot that the index advance publishes, slot
  \<open>(newAvailableIndex - 1) mod N\<close>. \<open>Pop\<close> increments the cached index before it computes
  the slot, and writes slot \<open>newAvailableIndex mod N\<close>. After \<open>Init(4, 64, Write)\<close> and one
  completion of descriptor 2 with 3 bytes, \<open>Pop\<close> returns the 3 bytes and advances both
  counters, from 4 to 5 and from 0 to 1; but slot 0, which the advance from 4 to 5
  publishes, still holds 0, and slot 1 has lost descriptor 1 to descriptor 2.
\<close>

theorem Pop_republishes_into_next_slot:
  "case VirtualQueue_Init 4 64 Write VirtualQueue_zero dma0 mem0 of
     Inl e \<Rightarrow> False
   | Inr (q, a, m) \<Rightarrow>
      (case VirtualQueue_Pop q
              (device_uses q 0 2 3
                 (write_bytes (sl_ptr (d_buf (q_Descriptors q ! 2))) [0xAB, 0xAB, 0xAB] m)) of
         Inl e \<Rightarrow> False
       | Inr (buf, q', m') \<Rightarrow>
           buf = Some [0xAB, 0xAB, 0xAB]
           \<and> u_last (q_Used q) = 0 \<and> u_last (q_Used q') = 1
           \<and> avail_index_image q m = 4 \<and> avail_index_image q' m' = 5
           \<and> map (avail_slot_image q m) [0..<4] = [0, 1, 2, 3]
           \<and> map (avail_slot_image q' m') [0..<4] = [0, 2, 2, 3])"
  apply (simp add: init4_defs Write_def)
  apply (simp add: trace_defs)
  done

section \<open>MSI-X table bounds\<close>

text \<open>
  C5 says that \<open>EnableInterrupt(n, addr, data)\<close> fails with the invalid-capability error
  and writes nothing when \<open>n\<close> is beyond the table, whose positions are
  \<open>0, ..., TableSize - 1\<close>. The guard is \<open>n > TableSize()\<close>: with table size 4, position 5
  is rejected without a write, but position 4 passes, and the entry 64 bytes into the
  table, past its last entry, the one at 48, is written and MSI-X is enabled.
\<close>

theorem EnableInterrupt_accepts_position_TableSize:
  "TableSize msix4 = 4
   \<and> EnableInterrupt (\<lambda>_ _. True) 5 0xfee00000 0x30 msix4 = (Some InvalidCapability, [])
   \<and> EnableInterrupt (\<lambda>_ _. True) 4 0xfee00000 0x30 msix4
       = (None, [TableWrite 0xfebd2040 (le_u64 0xfee00000),
                 TableWrite 0xfebd2048 (le_u32 0x30),
                 TableWrite 0xfebd204c (le_u32 0),
                 ConfigWrite 0 0x98 0x80000000])"
  by (simp add: EnableInterrupt_def TableSize_def msix4_def msixEnable_def Let_def)

lemma EnableInterrupt_rejects:
  "TableSize msix < n \<or> c_device msix = None
     \<Longrightarrow> EnableInterrupt NewRegion n addr data msix = (Some InvalidCapability, [])"
  by (simp add: EnableInterrupt_def)

section \<open>Binding an unbound buffer\<close>

text \<open>
  C6 as stated fails: \<open>Descriptor.Init\<close> signals nothing. For a buffer outside every
  reserved block it returns normally; it has no result, and it does not panic.
\<close>

theorem Descriptor_Init_unbound_returns_normally:
  "fst (Reserved dma0 \<lparr>sl_ptr = 64, sl_len = 16, sl_cap = 16\<rparr>) = False
   \<and> Descriptor_Init dma0 \<lparr>sl_ptr = 64, sl_len = 16, sl_cap = 16\<rparr> Write Descriptor_zero
       = Inr Descriptor_zero"
  by (simp add: Descriptor_Init_def Reserved_def dma0_def)

text \<open>
  C6, amended. For every buffer that the DMA allocator reports as unbound,
  \<open>Descriptor.Init(b, flags)\<close> returns normally, without a signal to the caller, and
  records nothing: the descriptor, with its address, length, flags and buffer binding, is
  left as it was.
\<close>

theorem Descriptor_Init_unbound_unchanged:
  "\<not> fst (Reserved a b) \<Longrightarrow> Descriptor_Init a b flags d = Inr d"
  by (cases "Reserved a b") (simp add: Descriptor_Init_def)

text \<open>A descriptor bound before, and a buffer outside the one reserved block.\<close>

theorem Descriptor_Init_unbound_unchanged_witness:
  "\<not> fst (Reserved (snd (Reserve 64 0 dma0)) \<lparr>sl_ptr = 8192, sl_len = 16, sl_cap = 16\<rparr>)
   \<and> Descriptor_Init (snd (Reserve 64 0 dma0)) \<lparr>sl_ptr = 8192, sl_len = 16, sl_cap = 16\<rparr> Next
         \<lparr>d_Address = 4096, d_length = 64, d_Flags = Write, d_Next = 0,
          d_buf = \<lparr>sl_ptr = 4096, sl_len = 64, sl_cap = 64\<rparr>\<rparr>
       = Inr \<lparr>d_Address = 4096, d_length = 64, d_Flags = Write, d_Next = 0,
              d_buf = \<lparr>sl_ptr = 4096, sl_len = 64, sl_cap = 64\<rparr>\<rparr>"
proof -
  have u: "\<not> fst (Reserved (snd (Reserve 64 0 dma0)) \<lparr>sl_ptr = 8192, sl_len = 16, sl_cap = 16\<rparr>)"
    by (simp add: Reserved_def Reserve_def dma0_def align_up_def)
  from Descriptor_Init_unbound_unchanged [OF u] u show ?thesis by simp
qed

section \<open>Recycling in Push\<close>

text \<open>
  C2 says that \<open>Push\<close>, with \<open>k = usedIndex - lastSeenIndex\<close> completions pending,
  re-publishes the descriptor index of each of the Used entries at positions
  \<open>lastSeenIndex mod N\<close>, ..., \<open>(usedIndex - 1) mod N\<close> into its own next Available slot
  and advances \<open>lastSeenIndex\<close> by \<open>k\<close>. The loop reads the entries at positions
  \<open>k - 1, ..., 0\<close> (\<open>Used.Ring(i - 1)\<close>, where \<open>Pop\<close> reads at \<open>last % size\<close>) and writes
  every one of them to the same slot, as the Available index does not move in the loop.
  On a transmit queue \<open>Init(4, 64, 0)\<close>, after two pushes the device completes
  descriptor 1 and then descriptor 0. The third push has \<open>k = 2\<close>: it writes both
  descriptor indices to slot 3, which keeps 1, and descriptor 0 is re-published nowhere.
  The device then completes descriptor 2, at position 2. The fourth push has
  \<open>lastSeenIndex = 2\<close> and \<open>k = 1\<close>: it reads position 0, not 2, and re-publishes
  descriptor 1 once more, into slot 0. \<open>lastSeenIndex\<close> does advance by \<open>k\<close>, to 2 and
  then to 3.
\<close>

theorem Push_recycles_into_one_slot:
  "case VirtualQueue_Init 4 64 0 VirtualQueue_zero dma0 mem0 of
     Inl e \<Rightarrow> False
   | Inr (q0, a, m0) \<Rightarrow>
  (case VirtualQueue_Push [0xA1] q0 m0 of
     Inl e \<Rightarrow> False
   | Inr (q1, m1) \<Rightarrow>
  (case VirtualQueue_Push [0xB2] q1 m1 of
     Inl e \<Rightarrow> False
   | Inr (q2, m2) \<Rightarrow>
  (case VirtualQueue_Push [0xC3] q2 (device_uses q2 1 0 1 (device_uses q2 0 1 1 m2)) of
     Inl e \<Rightarrow> False
   | Inr (q3, m3) \<Rightarrow>
       u_last (q_Used q2) = 0
       \<and> used_index_image q2 (device_uses q2 1 0 1 (device_uses q2 0 1 1 m2)) = 2
       \<and> avail_index_image q2 m2 = 2
       \<and> map (avail_slot_image q2 m2) [0..<4] = [0, 1, 2, 3]
       \<and> avail_index_image q3 m3 = 3
       \<and> map (avail_slot_image q3 m3) [0..<4] = [0, 1, 2, 1]
       \<and> u_last (q_Used q3) = 2
       \<and> (case VirtualQueue_Push [0xD4] q3 (device_uses q3 2 2 1 m3) of
             Inl e \<Rightarrow> False
           | Inr (q4, m4) \<Rightarrow>
               used_index_image q3 (device_uses q3 2 2 1 m3) = 3
               \<and> used_entry_image q3 (device_uses q3 2 2 1 m3) 2 = \<lparr>r_Index = 2, r_Length = 1\<rparr>
               \<and> avail_index_image q4 m4 = 4
               \<and> map (avail_slot_image q4 m4) [0..<4] = [1, 1, 2, 1]
               \<and> u_last (q_Used q4) = 3))))"
  apply (simp add: init4_defs Write_def)
  apply (simp add: trace_defs used_entry_image_def)
  done

section \<open>Push on a full ring\<close>








end
